theory Spec2Isabelle
  imports Main "HOL-Library.AList"
begin

section \<open>Dependency ordering: \<open>topologicalSort\<close>\<close>

text \<open>
  The dependency graph is a \<open>Record<Names, Array<Names>>\<close>: a finite table from a rule
  name to the list of names it references, kept here as an association list and read
  with \<open>map_of\<close>. \<open>dependencyGraph[ruleName] ?? []\<close> is \<open>nodeDependencies\<close>. Only
  own properties of the record are modelled; names inherited from the prototype of a
  script object are not part of the table.
\<close>

type_synonym 'a dependencyGraph = "('a \<times> 'a list) list"

definition nodeDependencies :: "'a dependencyGraph \<Rightarrow> 'a \<Rightarrow> 'a list" where
  "nodeDependencies g x = (case map_of g x of None \<Rightarrow> [] | Some ds \<Rightarrow> ds)"

definition targets :: "'a dependencyGraph \<Rightarrow> 'a set" where
  "targets g = (\<Union>(k, ds) \<in> set g. set ds)"

lemma finite_targets: "finite (targets g)"
  by (auto simp: targets_def)

lemma nodeDependencies_targets: "set (nodeDependencies g x) \<subseteq> targets g"
proof
  fix d assume "d \<in> set (nodeDependencies g x)"
  then obtain ds where "map_of g x = Some ds" "d \<in> set ds"
    by (cases "map_of g x") (auto simp: nodeDependencies_def)
  then have "(x, ds) \<in> set g" by (auto dest: map_of_SomeD)
  with \<open>d \<in> set ds\<close> show "d \<in> targets g" unfolding targets_def by blast
qed

text \<open>
  The two locals of \<open>topologicalSort\<close> are threaded as a pair: \<open>result\<close>, the output built
  by \<open>push\<close>, and \<open>temp\<close>, the in-progress marks (a missing entry reads as falsy).
  \<open>topologicalSortHelper\<close> is the inner function; \<open>visitDependencies\<close> is its
  \<open>for (const dependency of nodeDependencies)\<close> loop, whose \<open>continue\<close> on a marked
  dependency is the first branch.
\<close>

type_synonym 'a sortState = "'a list \<times> ('a \<Rightarrow> bool)"

text \<open>
  The measure of the termination proof: twice the number of names that are dependency
  targets (or still to be visited) and neither in \<open>result\<close> nor marked, with the loop one
  step above the call it makes; a loop that only moves on is shorter.
\<close>

definition sortMeasure :: "('a dependencyGraph \<times> 'a \<times> 'a sortState) + ('a dependencyGraph \<times> 'a list \<times> 'a sortState) \<Rightarrow> nat" where
  "sortMeasure a = (case a of
      Inl (g, x, result, temp) \<Rightarrow>
        (if x \<in> set result \<or> temp x
         then 2 * card (targets g - set result - Collect temp) + 2
         else 2 * card (insert x (targets g) - set result - Collect temp))
    | Inr (g, ds, result, temp) \<Rightarrow>
        2 * card ((targets g \<union> set ds) - set result - Collect temp) + 1)"

definition loopLength :: "('a dependencyGraph \<times> 'a \<times> 'a sortState) + ('a dependencyGraph \<times> 'a list \<times> 'a sortState) \<Rightarrow> nat" where
  "loopLength a = (case a of Inl _ \<Rightarrow> 0 | Inr (g, ds, st) \<Rightarrow> length ds)"

function topologicalSortHelper :: "'a dependencyGraph \<Rightarrow> 'a \<Rightarrow> 'a sortState \<Rightarrow> 'a sortState"
  and visitDependencies :: "'a dependencyGraph \<Rightarrow> 'a list \<Rightarrow> 'a sortState \<Rightarrow> 'a sortState"
where
  "topologicalSortHelper g ruleName (result, temp) =
     (case visitDependencies g (nodeDependencies g ruleName) (result, temp(ruleName := True)) of
        (result', temp') \<Rightarrow> (result' @ [ruleName], temp'(ruleName := False)))"
| "visitDependencies g [] st = st"
| "visitDependencies g (dependency # rest) (result, temp) =
     (if temp dependency then visitDependencies g rest (result, temp)
      else if dependency \<notin> set result
        then visitDependencies g rest (topologicalSortHelper g dependency (result, temp))
        else visitDependencies g rest (result, temp))"
  by pat_completeness auto

lemma helper_partial:
  "topologicalSortHelper_visitDependencies_dom (Inl (g, x, st)) \<Longrightarrow>
     set (fst st) \<subseteq> set (fst (topologicalSortHelper g x st)) \<and>
     snd (topologicalSortHelper g x st) = (snd st)(x := False)"
  "topologicalSortHelper_visitDependencies_dom (Inr (g, ds, st)) \<Longrightarrow>
     set (fst st) \<subseteq> set (fst (visitDependencies g ds st)) \<and>
     snd (visitDependencies g ds st) = snd st"
proof (induction g x st and g ds st rule: topologicalSortHelper_visitDependencies.pinduct)
  case (1 g ruleName result temp)
  then show ?case
    by (auto simp: topologicalSortHelper.psimps split: prod.splits)
next
  case (2 g st)
  then show ?case by (simp add: visitDependencies.psimps)
next
  case (3 g dependency rest result temp)
  then show ?case
    by (auto simp: visitDependencies.psimps fun_upd_idem)
qed

lemma measure_enter:
  "sortMeasure (Inr (g, nodeDependencies g r, result, temp(r := True)))
     < sortMeasure (Inl (g, r, result, temp))"
proof -
  let ?T = "targets g"
  let ?A = "?T - set result - Collect (temp(r := True))"
  have un: "?T \<union> set (nodeDependencies g r) = ?T"
    using nodeDependencies_targets[of g r] by auto
  have fin: "finite (?T - set result - Collect temp)" "finite ?A"
    using finite_targets[of g] by auto
  show ?thesis
  proof (cases "r \<in> set result \<or> temp r")
    case True
    have "?A \<subseteq> ?T - set result - Collect temp" by (auto split: if_splits)
    then have "card ?A \<le> card (?T - set result - Collect temp)"
      using fin(1) by (rule card_mono[rotated])
    with True show ?thesis by (simp add: sortMeasure_def un)
  next
    case False
    then have "insert r ?T - set result - Collect temp = insert r ?A"
      by (auto split: if_splits)
    moreover have "r \<notin> ?A" by simp
    ultimately have "card (insert r ?T - set result - Collect temp) = Suc (card ?A)"
      using fin(2) by simp
    with False show ?thesis by (simp add: sortMeasure_def un)
  qed
qed

lemma measure_call:
  assumes "\<not> temp d" "d \<notin> set result"
  shows "sortMeasure (Inl (g, d, result, temp)) < sortMeasure (Inr (g, d # rest, result, temp))"
proof -
  have "insert d (targets g) - set result - Collect temp
          \<subseteq> (targets g \<union> set (d # rest)) - set result - Collect temp" by auto
  moreover have "finite ((targets g \<union> set (d # rest)) - set result - Collect temp)"
    using finite_targets[of g] by auto
  ultimately have "card (insert d (targets g) - set result - Collect temp)
          \<le> card ((targets g \<union> set (d # rest)) - set result - Collect temp)"
    by (rule card_mono[rotated])
  with assms show ?thesis by (simp add: sortMeasure_def)
qed

lemma measure_next:
  assumes "set result \<subseteq> set result'"
  shows "sortMeasure (Inr (g, rest, result', temp)) \<le> sortMeasure (Inr (g, d # rest, result, temp))"
proof -
  have "(targets g \<union> set rest) - set result' - Collect temp
          \<subseteq> (targets g \<union> set (d # rest)) - set result - Collect temp"
    using assms by auto
  moreover have "finite ((targets g \<union> set (d # rest)) - set result - Collect temp)"
    using finite_targets[of g] by auto
  ultimately have "card ((targets g \<union> set rest) - set result' - Collect temp)
          \<le> card ((targets g \<union> set (d # rest)) - set result - Collect temp)"
    by (rule card_mono[rotated])
  then show ?thesis by (simp add: sortMeasure_def)
qed

termination topologicalSortHelper
proof (relation "measures [sortMeasure, loopLength]", goal_cases)
  case 1
  then show ?case by simp
next
  case (2 g ruleName result temp)
  then show ?case using measure_enter[of g ruleName result temp] by simp
next
  case (3 g dependency rest result temp)
  then show ?case
    using measure_next[of result result g rest temp dependency]
    by (auto simp: loopLength_def)
next
  case (4 g dependency rest result temp)
  then show ?case using measure_call[of temp dependency result g rest] by simp
next
  case (5 g dependency rest result temp)
  obtain result' temp' where x: "topologicalSortHelper g dependency (result, temp) = (result', temp')"
    by (cases "topologicalSortHelper g dependency (result, temp)")
  from 5 helper_partial(1)[of g dependency "(result, temp)"] x
  have "set result \<subseteq> set result'" "temp' = temp"
    by (auto simp: fun_upd_idem)
  then show ?case
    using measure_next[of result result' g rest temp dependency] x
    by (auto simp: loopLength_def)
next
  case (6 g dependency rest result temp)
  then show ?case
    using measure_next[of result result g rest temp dependency]
    by (auto simp: loopLength_def)
qed

text \<open>The outer \<open>for (const ruleName of rulesNames)\<close> loop and the returned \<open>result\<close>.\<close>

definition sortStep :: "'a dependencyGraph \<Rightarrow> 'a \<Rightarrow> 'a sortState \<Rightarrow> 'a sortState" where
  "sortStep dependencyGraph ruleName st =
     (if ruleName \<notin> set (fst st) then topologicalSortHelper dependencyGraph ruleName st else st)"

definition topologicalSort :: "'a list \<Rightarrow> 'a dependencyGraph \<Rightarrow> 'a list" where
  "topologicalSort rulesNames dependencyGraph =
     fst (fold (sortStep dependencyGraph) rulesNames ([], \<lambda>_. False))"















section \<open>Raw rules and the desugarer: \<open>transpileRef\<close>\<close>

text \<open>
  A raw rule tree as the decoder hands it over: scalars, sequences and objects. An
  object is the list of its entries in the order \<open>Object.entries\<close> enumerates them;
  writing a key (\<open>{...obj, [key]: v}\<close>) is \<open>AList.update\<close>: an existing key keeps its
  place, a new key goes last. (The engine's placing of integer-like keys ahead of the
  others is not modelled.) Numbers are left abstract (\<open>'n\<close>): no pass computes with them.
\<close>

datatype 'n rawNode =
    Undefined
  | Null
  | Bool bool
  | Num 'n
  | Str string
  | Arr "'n rawNode list"
  | Obj "(string \<times> 'n rawNode) list"

text \<open>
  Strings are lists of code units below 256. The key pattern is the regular expression
  \<open>/\[ref( (.+))?\]$/\<close>. Started at a given position it matches exactly when the rest of
  the key is \<open>[ref]\<close> (no second group), or is \<open>[ref \<close>, one or more characters
  that are not line terminators, and a closing bracket at the very end of the key (the
  second group is what stands between). \<open>matchAt\<close> decides this for one start position
  and returns the second group; \<open>refExec\<close> is \<open>exec\<close>: the leftmost start position that
  matches, with \<open>match[0]\<close> and \<open>match[2]\<close>. \<open>replaceFirst pat s\<close> is \<open>s.replace(pat, '')\<close>
  for a string pattern: the first occurrence is removed. \<open>trim\<close> strips white space
  and line terminators at both ends.
\<close>

definition lineTerminator :: "char \<Rightarrow> bool" where
  "lineTerminator c \<longleftrightarrow> c = CHR 0x0A \<or> c = CHR 0x0D"

definition whiteSpace :: "char \<Rightarrow> bool" where
  "whiteSpace c \<longleftrightarrow> c \<in> set [CHR 0x09, CHR 0x0A, CHR 0x0B, CHR 0x0C, CHR 0x0D, CHR 0x20, CHR 0xA0]"

definition trim :: "string \<Rightarrow> string" where
  "trim s = rev (dropWhile whiteSpace (rev (dropWhile whiteSpace s)))"

definition matchAt :: "string \<Rightarrow> string option option" where
  "matchAt s =
     (if s = ''[ref]'' then Some None
      else if take 5 s = ''[ref '' \<and> 7 \<le> length s \<and> last s = CHR '']''
              \<and> (\<forall>c \<in> set (butlast (drop 5 s)). \<not> lineTerminator c)
           then Some (Some (butlast (drop 5 s)))
           else None)"

fun refExec :: "string \<Rightarrow> (string \<times> string option) option" where
  "refExec [] = None"
| "refExec (c # cs) =
     (case matchAt (c # cs) of
        Some captured \<Rightarrow> Some (c # cs, captured)
      | None \<Rightarrow> refExec cs)"

fun replaceFirst :: "string \<Rightarrow> string \<Rightarrow> string" where
  "replaceFirst pat [] = []"
| "replaceFirst pat (c # cs) =
     (if take (length pat) (c # cs) = pat then drop (length pat) (c # cs)
      else c # replaceFirst pat cs)"

text \<open>
  \<open>transpileRef\<close>: sequences are mapped element by element, objects are rebuilt by the
  \<open>reduce\<close> over their entries from the empty object, everything else is returned as
  it is. \<open>match[2]?.trim() || argumentType\<close> falls back to \<open>argumentType\<close> when the second
  group is missing or trims to the empty string.
\<close>

fun transpileRef :: "'n rawNode \<Rightarrow> 'n rawNode" where
  "transpileRef (Arr object) = Arr (map transpileRef object)"
| "transpileRef (Obj object) =
     Obj (foldl (\<lambda>obj (key, value).
            case refExec key of
              None \<Rightarrow> AList.update key (transpileRef value) obj
            | Some (match0, match2) \<Rightarrow>
                let argumentType = trim (replaceFirst match0 key);
                    argumentName = (case match2 of
                                      None \<Rightarrow> argumentType
                                    | Some m \<Rightarrow> if trim m = [] then argumentType else trim m)
                in AList.update argumentType
                     (Obj [(''nom'', Str argumentName), (''valeur'', transpileRef value)]) obj)
          [] object)"
| "transpileRef object = object"

text \<open>
  \<open>shorthandFree\<close>: no key, at any depth, matches the \<open>[ref]\<close> pattern.
  \<open>distinctKeys\<close>: no object lists a key twice (true of every script object).
\<close>

fun shorthandFree :: "'n rawNode \<Rightarrow> bool" where
  "shorthandFree (Arr xs) = list_all shorthandFree xs"
| "shorthandFree (Obj kvs) = list_all (\<lambda>(key, value). refExec key = None \<and> shorthandFree value) kvs"
| "shorthandFree v = True"

fun distinctKeys :: "'n rawNode \<Rightarrow> bool" where
  "distinctKeys (Arr xs) = list_all distinctKeys xs"
| "distinctKeys (Obj kvs) = (distinct (map fst kvs) \<and> list_all (\<lambda>(key, value). distinctKeys value) kvs)"
| "distinctKeys v = True"

definition transpileEntry :: "(string \<times> 'n rawNode) list \<Rightarrow> string \<times> 'n rawNode \<Rightarrow> (string \<times> 'n rawNode) list" where
  "transpileEntry obj = (\<lambda>(key, value).
            case refExec key of
              None \<Rightarrow> AList.update key (transpileRef value) obj
            | Some (match0, match2) \<Rightarrow>
                let argumentType = trim (replaceFirst match0 key);
                    argumentName = (case match2 of
                                      None \<Rightarrow> argumentType
                                    | Some m \<Rightarrow> if trim m = [] then argumentType else trim m)
                in AList.update argumentType
                     (Obj [(''nom'', Str argumentName), (''valeur'', transpileRef value)]) obj)"

lemma transpileRef_Obj: "transpileRef (Obj object) = Obj (foldl transpileEntry [] object)"
  by (simp add: transpileEntry_def[abs_def])

lemma update_fresh: "k \<notin> fst ` set al \<Longrightarrow> AList.update k v al = al @ [(k, v)]"
  by (induction al) auto

lemma list_all_update:
  "list_all P al \<Longrightarrow> P (k, v) \<Longrightarrow> list_all P (AList.update k v al)"
  by (induction al) auto

lemma foldl_transpileEntry_keep:
  assumes "\<forall>(k, v) \<in> set kvs. refExec k = None \<and> transpileRef v = v"
    and "distinct (map fst (acc @ kvs))"
  shows "foldl transpileEntry acc kvs = acc @ kvs"
  using assms
proof (induction kvs arbitrary: acc)
  case Nil
  then show ?case by simp
next
  case (Cons kv kvs)
  obtain k v where kv: "kv = (k, v)" by (cases kv)
  from Cons.prems kv have "transpileEntry acc kv = acc @ [(k, v)]"
    by (auto simp: transpileEntry_def update_fresh)
  with Cons.IH[of "acc @ [(k, v)]"] Cons.prems kv show ?case by simp
qed

lemma foldl_transpileEntry_distinct:
  assumes "\<forall>(k, v) \<in> set kvs. distinctKeys (transpileRef v)"
    and "distinct (map fst acc)" "list_all (\<lambda>(key, value). distinctKeys value) acc"
  shows "distinct (map fst (foldl transpileEntry acc kvs)) \<and>
         list_all (\<lambda>(key, value). distinctKeys value) (foldl transpileEntry acc kvs)"
  using assms
proof (induction kvs arbitrary: acc)
  case Nil
  then show ?case by simp
next
  case (Cons kv kvs)
  obtain k v where kv: "kv = (k, v)" by (cases kv)
  from Cons.prems kv have "distinct (map fst (transpileEntry acc kv))"
    by (auto simp: transpileEntry_def distinct_update Let_def split: option.splits)
  moreover from Cons.prems kv
  have "list_all (\<lambda>(key, value). distinctKeys value) (transpileEntry acc kv)"
    by (auto simp: transpileEntry_def Let_def split: option.splits intro!: list_all_update)
  ultimately show ?case using Cons.IH[of "transpileEntry acc kv"] Cons.prems by simp
qed

lemma distinctKeys_transpileRef: "distinctKeys (transpileRef x)"
proof (induction x)
  case (Arr xs)
  then show ?case by (simp add: list_all_iff)
next
  case (Obj kvs)
  then have "\<forall>(k, v) \<in> set kvs. distinctKeys (transpileRef v)" by fastforce
  from foldl_transpileEntry_distinct[OF this, of "[]"] show ?case
    by (simp add: transpileRef_Obj del: transpileRef.simps)
qed simp_all

lemma transpileRef_shorthandFree: "distinctKeys y \<Longrightarrow> shorthandFree y \<Longrightarrow> transpileRef y = y"
proof (induction y)
  case (Arr xs)
  then show ?case by (simp add: list_all_iff map_idI)
next
  case (Obj kvs)
  then have "\<forall>(k, v) \<in> set kvs. refExec k = None \<and> transpileRef v = v"
    by (fastforce simp: list_all_iff)
  from foldl_transpileEntry_keep[OF this, of "[]"] Obj.prems show ?case
    by (simp add: transpileRef_Obj del: transpileRef.simps)
qed simp_all

lemmas string_eval = matchAt_def trim_def whiteSpace_def lineTerminator_def Let_def

text \<open>
  C2. The claim that \<open>transpileRef\<close> is idempotent on every raw input does not hold: a
  key that carries the shorthand twice, such as \<open>a[ref][ref]\<close>, is rewritten to the key
  \<open>a[ref]\<close> (the pattern matches the last \<open>[ref]\<close>, and \<open>replace\<close> removes the first
  occurrence of the matched text), which a second pass rewrites again. What holds is
  the spec's other sentence: when the desugared tree has no shorthand key left, a second
  pass returns it unchanged.
\<close>

theorem transpileRef_idempotent_when_desugared:
  "shorthandFree (transpileRef x) \<Longrightarrow> transpileRef (transpileRef x) = transpileRef x"
  by (rule transpileRef_shorthandFree[OF distinctKeys_transpileRef])

theorem transpileRef_idempotent_when_desugared_witness:
  "shorthandFree (transpileRef (Obj [(''a [ref]'', Num (1::int))]))
   \<and> transpileRef (transpileRef (Obj [(''a [ref]'', Num (1::int))]))
       = transpileRef (Obj [(''a [ref]'', Num (1::int))])"
proof -
  have h: "shorthandFree (transpileRef (Obj [(''a [ref]'', Num (1::int))]))"
    by (simp add: string_eval)
  from transpileRef_idempotent_when_desugared[OF h] h show ?thesis by blast
qed

theorem transpileRef_not_idempotent:
  "transpileRef (transpileRef (Obj [(''a[ref][ref]'', Num (1::int))]))
     \<noteq> transpileRef (Obj [(''a[ref][ref]'', Num (1::int))])"
  by (simp add: string_eval)

section \<open>The compiled tree\<close>

text \<open>
  Errors are values: \<open>SyntaxError\<close> with its message, \<open>TypeError\<close> for a property read
  on \<open>undefined\<close>, and \<open>CollaboratorError\<close> for whatever a function outside these
  files throws.

  \<open>ASTNode\<close> is the tagged union the passes dispatch on by \<open>nodeKind\<close> (the kinds are
  named after their \<open>nodeKind\<close> strings, without accents and spaces). The kinds whose
  \<open>explanation\<close> no pass below reads share the constructor \<open>Mechanism\<close> and keep their
  sub-expressions as a list; the others carry the fields that are read:
  \<open>explanation.assiette\<close>, \<open>explanation.valeur\<close>, the operand of a unit annotation, the
  \<open>condition\<close> and \<open>consequence\<close> of each line of a \<open>variations\<close>, the \<open>nodeValue\<close> of a
  constant (\<open>None\<close> is \<open>null\<close>), and for a rule its \<open>dottedName\<close>, \<open>title\<close>,
  \<open>rawNode.acronyme\<close> and \<open>explanation.valeur\<close>.
\<close>

datatype error = SyntaxError string | TypeError string | RangeError string | CollaboratorError string

datatype mechanismKind =
    Somme | Produit | Bareme | Duree | Grille | TauxProgressif | Maximum | Minimum
  | ApplicableSi | NonApplicableSi
  | Inversion | Operation | ParDefaut | Recalcul | ReplacementRule
  | ToutesCesConditions | UneDeCesConditions | UnePossibilite
  | ResoudreReferenceCirculaire | Synchronisation

datatype valeurKind = Arrondi | NomDansLaSituation | Plafond | Plancher

record referenceNode =
  contextDottedName :: string
  name :: string
  thisReferenceIsNotARealDependencyHack :: bool
  dottedName :: "string option"
  title :: "string option"
  acronym :: "string option"

datatype 'v ASTNode =
    Mechanism mechanismKind "'v ASTNode list"
  | Constant "'v option"
  | Abattement "'v ASTNode" "'v ASTNode list"
  | ValeurNode valeurKind "'v ASTNode" "'v ASTNode list"
  | Unite "'v ASTNode"
  | Variations "('v ASTNode \<times> 'v ASTNode) list"
  | Rule string "string option" "string option" "'v ASTNode"
  | Reference referenceNode

type_synonym 'v parsedRules = "(string \<times> 'v ASTNode) list"

section \<open>Nullability inference: \<open>inferRulesUnit\<close>\<close>

text \<open>
  \<open>res\<close> is the fact table. An entry can hold \<open>undefined\<close> (\<open>Some None\<close>): the \<open>rule\<close>
  case stores whatever the root expression returned. \<open>readFact\<close> is \<open>res[key]\<close>, which
  is \<open>undefined\<close> for a missing key and for a stored \<open>undefined\<close> alike. A reference
  without a resolved name reads the key \<open>undefined\<close>. \<open>someNullable\<close> is
  \<open>node.explanation.some(line => inferNodeUnit(line.consequence).isNullable)\<close>: it stops
  at the first nullable line, and reading \<open>isNullable\<close> of \<open>undefined\<close> throws.
\<close>

record InferedUnit =
  isNullable :: bool

type_synonym facts = "string \<rightharpoonup> InferedUnit option"

fun mechanismUnit :: "mechanismKind \<Rightarrow> InferedUnit" where
  "mechanismUnit Somme = \<lparr>isNullable = False\<rparr>"
| "mechanismUnit Produit = \<lparr>isNullable = False\<rparr>"
| "mechanismUnit Bareme = \<lparr>isNullable = False\<rparr>"
| "mechanismUnit Duree = \<lparr>isNullable = False\<rparr>"
| "mechanismUnit Grille = \<lparr>isNullable = False\<rparr>"
| "mechanismUnit TauxProgressif = \<lparr>isNullable = False\<rparr>"
| "mechanismUnit Maximum = \<lparr>isNullable = False\<rparr>"
| "mechanismUnit Minimum = \<lparr>isNullable = False\<rparr>"
| "mechanismUnit ApplicableSi = \<lparr>isNullable = True\<rparr>"
| "mechanismUnit NonApplicableSi = \<lparr>isNullable = True\<rparr>"
| "mechanismUnit Inversion = \<lparr>isNullable = False\<rparr>"
| "mechanismUnit Operation = \<lparr>isNullable = False\<rparr>"
| "mechanismUnit ParDefaut = \<lparr>isNullable = False\<rparr>"
| "mechanismUnit Recalcul = \<lparr>isNullable = False\<rparr>"
| "mechanismUnit ReplacementRule = \<lparr>isNullable = False\<rparr>"
| "mechanismUnit ToutesCesConditions = \<lparr>isNullable = False\<rparr>"
| "mechanismUnit UneDeCesConditions = \<lparr>isNullable = False\<rparr>"
| "mechanismUnit UnePossibilite = \<lparr>isNullable = False\<rparr>"
| "mechanismUnit ResoudreReferenceCirculaire = \<lparr>isNullable = False\<rparr>"
| "mechanismUnit Synchronisation = \<lparr>isNullable = False\<rparr>"

definition readFact :: "facts \<Rightarrow> string \<Rightarrow> InferedUnit option" where
  "readFact res key = (case res key of None \<Rightarrow> None | Some unit \<Rightarrow> unit)"

definition referenceKey :: "referenceNode \<Rightarrow> string" where
  "referenceKey r = (case dottedName r of None \<Rightarrow> ''undefined'' | Some d \<Rightarrow> d)"

fun inferNodeUnit :: "'v ASTNode \<Rightarrow> facts \<Rightarrow> error + (InferedUnit option \<times> facts)"
  and someNullable :: "('v ASTNode \<times> 'v ASTNode) list \<Rightarrow> facts \<Rightarrow> error + (bool \<times> facts)"
where
  "inferNodeUnit (Mechanism kind explanation) res = Inr (Some (mechanismUnit kind), res)"
| "inferNodeUnit (Constant nodeValue) res = Inr (Some \<lparr>isNullable = (nodeValue = None)\<rparr>, res)"
| "inferNodeUnit (Abattement assiette others) res = inferNodeUnit assiette res"
| "inferNodeUnit (ValeurNode kind valeur others) res = inferNodeUnit valeur res"
| "inferNodeUnit (Unite explanation) res = inferNodeUnit explanation res"
| "inferNodeUnit (Variations explanation) res =
     (case someNullable explanation res of
        Inl e \<Rightarrow> Inl e
      | Inr (b, res') \<Rightarrow> Inr (Some \<lparr>isNullable = b\<rparr>, res'))"
| "inferNodeUnit (Rule ruleName ruleTitle acronyme valeur) res =
     (case inferNodeUnit valeur res of
        Inl e \<Rightarrow> Inl e
      | Inr (unit, res') \<Rightarrow> Inr (unit, res'(ruleName \<mapsto> unit)))"
| "inferNodeUnit (Reference r) res = Inr (readFact res (referenceKey r), res)"
| "someNullable [] res = Inr (False, res)"
| "someNullable ((condition, consequence) # lines) res =
     (case inferNodeUnit consequence res of
        Inl e \<Rightarrow> Inl e
      | Inr (None, res') \<Rightarrow> Inl (TypeError ''Cannot read properties of undefined (reading isNullable)'')
      | Inr (Some unit, res') \<Rightarrow>
          if isNullable unit then Inr (True, res') else someNullable lines res')"

fun inferEach :: "'v parsedRules \<Rightarrow> string list \<Rightarrow> facts \<Rightarrow> error + facts" where
  "inferEach parsedRules [] res = Inr res"
| "inferEach parsedRules (ruleName # rest) res =
     (case map_of parsedRules ruleName of
        None \<Rightarrow> Inl (TypeError ''Cannot read properties of undefined (reading nodeKind)'')
      | Some node \<Rightarrow>
          (case inferNodeUnit node res of
             Inl e \<Rightarrow> Inl e
           | Inr (unit, res') \<Rightarrow> inferEach parsedRules rest res'))"

definition inferRulesUnit :: "'v parsedRules \<Rightarrow> string list \<Rightarrow> error + facts" where
  "inferRulesUnit parsedRules topologicalOrder = inferEach parsedRules topologicalOrder Map.empty"

section \<open>Reference resolution: \<open>disambiguateReference\<close>\<close>

text \<open>
  The callback given to the tree transformer. \<open>disambiguateRuleReference\<close> is not part
  of these files and is a parameter (\<open>resolve\<close>); so is the order in which the
  transformer hands nodes to the callback, taken as the list \<open>visited\<close> that
  \<open>disambiguateEach\<close> runs through. The callback returns \<open>undefined\<close> (\<open>None\<close>) for every
  node that is not a reference. \<open>parsedRules[dottedName].title\<close> throws when the resolved
  name is no rule of the map.
\<close>

type_synonym 'v resolver = "'v parsedRules \<Rightarrow> string \<Rightarrow> string \<Rightarrow> error + string"

definition disambiguateReference ::
  "'v resolver \<Rightarrow> 'v parsedRules \<Rightarrow> 'v ASTNode \<Rightarrow> string dependencyGraph
     \<Rightarrow> error + ('v ASTNode option \<times> string dependencyGraph)" where
  "disambiguateReference disambiguateRuleReference parsedRules node dependencies =
     (case node of
        Reference r \<Rightarrow>
          (case disambiguateRuleReference parsedRules (contextDottedName r) (name r) of
             Inl e \<Rightarrow> Inl e
           | Inr resolved \<Rightarrow>
               let dependencies' =
                     (if \<not> thisReferenceIsNotARealDependencyHack r
                      then AList.update (contextDottedName r)
                             (nodeDependencies dependencies (contextDottedName r) @ [resolved])
                             dependencies
                      else dependencies)
               in (case map_of parsedRules resolved of
                     None \<Rightarrow> Inl (TypeError ''Cannot read properties of undefined (reading title)'')
                   | Some (Rule ruleName ruleTitle acronyme valeur) \<Rightarrow>
                       Inr (Some (Reference (r\<lparr>dottedName := Some resolved,
                                               title := ruleTitle,
                                               acronym := acronyme\<rparr>)),
                            dependencies')
                   | Some target \<Rightarrow>
                       Inl (TypeError ''Cannot read properties of undefined (reading acronyme)'')))
      | _ \<Rightarrow> Inr (None, dependencies))"

fun disambiguateEach ::
  "'v resolver \<Rightarrow> 'v parsedRules \<Rightarrow> 'v ASTNode list \<Rightarrow> string dependencyGraph
     \<Rightarrow> error + string dependencyGraph" where
  "disambiguateEach resolve parsedRules [] dependencies = Inr dependencies"
| "disambiguateEach resolve parsedRules (node # visited) dependencies =
     (case disambiguateReference resolve parsedRules node dependencies of
        Inl e \<Rightarrow> Inl e
      | Inr (replacement, dependencies') \<Rightarrow> disambiguateEach resolve parsedRules visited dependencies')"

text \<open>
  \<open>realEdges\<close>: the resolved targets of the unflagged references of \<open>rule\<close> among the
  visited nodes, in visiting order and with repetitions.
\<close>

fun realEdge :: "'v resolver \<Rightarrow> 'v parsedRules \<Rightarrow> string \<Rightarrow> 'v ASTNode \<Rightarrow> string list" where
  "realEdge resolve parsedRules rule (Reference r) =
     (if contextDottedName r = rule \<and> \<not> thisReferenceIsNotARealDependencyHack r
      then (case resolve parsedRules (contextDottedName r) (name r) of
              Inr resolved \<Rightarrow> [resolved]
            | Inl e \<Rightarrow> [])
      else [])"
| "realEdge resolve parsedRules rule node = []"

definition realEdges :: "'v resolver \<Rightarrow> 'v parsedRules \<Rightarrow> 'v ASTNode list \<Rightarrow> string \<Rightarrow> string list" where
  "realEdges resolve parsedRules visited rule = concat (map (realEdge resolve parsedRules rule) visited)"

section \<open>Example rule sets\<close>

definition plainReference :: "string \<Rightarrow> string \<Rightarrow> referenceNode" where
  "plainReference context target =
     \<lparr>contextDottedName = context, name = target, thisReferenceIsNotARealDependencyHack = False,
      dottedName = None, title = None, acronym = None\<rparr>"

definition resolvedReference :: "string \<Rightarrow> string \<Rightarrow> referenceNode" where
  "resolvedReference context target = (plainReference context target)\<lparr>dottedName := Some target\<rparr>"

definition sameName :: "'v resolver" where
  "sameName parsedRules context target = Inr target"

definition gateAndSum :: "int parsedRules" where
  "gateAndSum =
     [(''a'', Rule ''a'' None None (Mechanism ApplicableSi [Constant (Some 1)])),
      (''b'', Rule ''b'' None None (Mechanism Somme [Reference (resolvedReference ''b'' ''a'')]))]"

definition cyclicVariations :: "int parsedRules" where
  "cyclicVariations =
     [(''a'', Rule ''a'' None None
               (Variations [(Constant (Some 1), Reference (resolvedReference ''a'' ''b'')),
                            (Constant (Some 1), Constant (Some 0))])),
      (''b'', Rule ''b'' None None (Reference (resolvedReference ''b'' ''a'')))]"

lemmas example_defs = plainReference_def resolvedReference_def sameName_def gateAndSum_def
  cyclicVariations_def

section \<open>Properties of the inference pass\<close>

text \<open>
  \<open>ruleRoots\<close> lists every rule node of a tree with its root expression;
  \<open>rootsAgree ruleName kind\<close> says that every rule node called \<open>ruleName\<close> in the tree has a
  root of mechanism \<open>kind\<close> (in a compiled rule set the nodes of one rule are copies of
  one another).
\<close>

fun ruleRoots :: "'v ASTNode \<Rightarrow> (string \<times> 'v ASTNode) list" where
  "ruleRoots (Mechanism kind explanation) = concat (map ruleRoots explanation)"
| "ruleRoots (Constant nodeValue) = []"
| "ruleRoots (Abattement assiette others) = ruleRoots assiette @ concat (map ruleRoots others)"
| "ruleRoots (ValeurNode kind valeur others) = ruleRoots valeur @ concat (map ruleRoots others)"
| "ruleRoots (Unite explanation) = ruleRoots explanation"
| "ruleRoots (Variations explanation) =
     concat (map (\<lambda>(condition, consequence). ruleRoots condition @ ruleRoots consequence) explanation)"
| "ruleRoots (Rule ruleName ruleTitle acronyme valeur) = (ruleName, valeur) # ruleRoots valeur"
| "ruleRoots (Reference r) = []"

fun rootKind :: "'v ASTNode \<Rightarrow> mechanismKind option" where
  "rootKind (Mechanism kind explanation) = Some kind"
| "rootKind node = None"

definition rootsAgree :: "string \<Rightarrow> mechanismKind \<Rightarrow> 'v ASTNode \<Rightarrow> bool" where
  "rootsAgree ruleName kind node \<longleftrightarrow>
     list_all (\<lambda>(n, root). n = ruleName \<longrightarrow> rootKind root = Some kind) (ruleRoots node)"

definition gateKinds :: "mechanismKind set" where
  "gateKinds = {ApplicableSi, NonApplicableSi}"

definition aggregationKinds :: "mechanismKind set" where
  "aggregationKinds = {Somme, Produit, Bareme, Duree, Grille, TauxProgressif, Maximum, Minimum}"

lemma rootKind_Some: "rootKind root = Some kind \<Longrightarrow> inferNodeUnit root res = Inr (Some (mechanismUnit kind), res)"
  by (cases root) auto

lemma infer_preserves_fact:
  "inferNodeUnit (node :: 'v ASTNode) res = Inr (u, res') \<Longrightarrow> rootsAgree n kind node \<Longrightarrow>
     res n = Some (Some (mechanismUnit kind)) \<Longrightarrow> res' n = Some (Some (mechanismUnit kind))"
  "someNullable (lines :: ('v ASTNode \<times> 'v ASTNode) list) res = Inr (b, res') \<Longrightarrow> list_all (\<lambda>(c, q). rootsAgree n kind q) lines \<Longrightarrow>
     res n = Some (Some (mechanismUnit kind)) \<Longrightarrow> res' n = Some (Some (mechanismUnit kind))"
proof (induction node res and lines res arbitrary: u res' and b res' rule: inferNodeUnit_someNullable.induct)
  case (6 explanation res)
  from "6.prems"(2) have "list_all (\<lambda>(c, q). rootsAgree n kind q) explanation"
    by (auto simp: rootsAgree_def list_all_iff)
  with 6 show ?case by (auto split: sum.splits prod.splits)
next
  case (7 ruleName ruleTitle acronyme valeur res)
  from "7.prems"(1) obtain res1 where v: "inferNodeUnit valeur res = Inr (u, res1)"
    and r: "res' = res1(ruleName \<mapsto> u)"
    by (auto split: sum.splits prod.splits)
  from "7.prems"(2) have agree: "rootsAgree n kind valeur"
    and root: "ruleName = n \<longrightarrow> rootKind valeur = Some kind"
    by (auto simp: rootsAgree_def)
  from "7.IH"[OF v agree "7.prems"(3)] have keep: "res1 n = Some (Some (mechanismUnit kind))" .
  show ?case
  proof (cases "ruleName = n")
    case True
    with root v have "u = Some (mechanismUnit kind)" by (simp add: rootKind_Some)
    with r True show ?thesis by simp
  next
    case False
    with r keep show ?thesis by simp
  qed
next
  case (10 condition consequence lines res)
  from "10.prems"(1) obtain unit res1 where c: "inferNodeUnit consequence res = Inr (Some unit, res1)"
    and rest: "if isNullable unit then (b, res') = (True, res1) else someNullable lines res1 = Inr (b, res')"
    by (auto split: sum.splits prod.splits option.splits if_splits)
  from "10.prems"(2) have a1: "rootsAgree n kind consequence"
    and a2: "list_all (\<lambda>(c, q). rootsAgree n kind q) lines" by auto
  from "10.IH"(1)[OF c a1 "10.prems"(3)] have keep: "res1 n = Some (Some (mechanismUnit kind))" .
  show ?case
  proof (cases "isNullable unit")
    case True
    with rest keep show ?thesis by simp
  next
    case False
    with rest have "someNullable lines res1 = Inr (b, res')" by simp
    from "10.IH"(2)[OF c refl refl False this a2 keep] show ?thesis .
  qed
qed (auto simp: rootsAgree_def)

lemma inferEach_fact:
  assumes "inferEach parsedRules order res0 = Inr res"
    and "list_all (\<lambda>(key, node). rootsAgree n kind node) parsedRules"
    and "map_of parsedRules n = Some (Rule n ruleTitle acronyme root)"
    and "n \<in> set order \<or> res0 n = Some (Some (mechanismUnit kind))"
  shows "res n = Some (Some (mechanismUnit kind))"
  using assms(1,4)
proof (induction order arbitrary: res0)
  case Nil
  then show ?case by simp
next
  case (Cons ruleName rest)
  from Cons.prems(1) obtain node u res1 where node: "map_of parsedRules ruleName = Some node"
    and step: "inferNodeUnit node res0 = Inr (u, res1)"
    and more: "inferEach parsedRules rest res1 = Inr res"
    by (auto split: option.splits sum.splits prod.splits)
  from node have "(ruleName, node) \<in> set parsedRules" by (rule map_of_SomeD)
  with assms(2) have agree: "rootsAgree n kind node" by (auto simp: list_all_iff)
  have "n \<in> set rest \<or> res1 n = Some (Some (mechanismUnit kind))"
  proof (cases "ruleName = n")
    case True
    with node assms(3) have n: "node = Rule n ruleTitle acronyme root" by simp
    with agree have "rootKind root = Some kind" by (simp add: rootsAgree_def)
    with step n have "res1 n = Some (Some (mechanismUnit kind))"
      by (auto simp: rootKind_Some)
    then show ?thesis ..
  next
    case False
    with Cons.prems(2) infer_preserves_fact(1)[OF step agree] show ?thesis by auto
  qed
  with Cons.IH[OF more] show ?case .
qed

text \<open>
  C3. The claim that inference never throws on a cycle does not hold for a cycle that
  passes through the consequence of a \<open>variations\<close> line. With \<open>a\<close> a variations whose
  first consequence is the reference \<open>b\<close> and \<open>b\<close> the reference \<open>a\<close>, the order is
  \<open>b, a\<close>; \<open>b\<close> memoizes \<open>undefined\<close> (the fact of \<open>a\<close> is not there yet), and the
  variations case of \<open>a\<close> then reads \<open>isNullable\<close> of \<open>undefined\<close>.
\<close>

theorem inferRulesUnit_throws_on_cycle_through_variations:
  "topologicalSort [''a'', ''b''] [(''a'', [''b'']), (''b'', [''a''])] = [''b'', ''a'']
   \<and> inferRulesUnit cyclicVariations (topologicalSort [''a'', ''b''] [(''a'', [''b'']), (''b'', [''a''])])
       = Inl (TypeError ''Cannot read properties of undefined (reading isNullable)'')"
  by (simp add: inferRulesUnit_def readFact_def referenceKey_def example_defs
        topologicalSort_def sortStep_def nodeDependencies_def)

text \<open>
  C4. When the inference pass returns the fact table, the entry of a rule whose root is an
  applicability gate (\<open>applicable si\<close>, \<open>non applicable si\<close>) is \<open>isNullable = true\<close>, and
  the entry of a rule whose root is a sum, product, rate scale, duration, grid,
  progressive rate, maximum or minimum is \<open>isNullable = false\<close>. The rule is one of the
  ordered names, is stored in the rule map under its own dotted name, and every rule node
  of that name in the rule set has a root of the same kind.
\<close>

theorem inferRulesUnit_gate_and_aggregation:
  assumes "inferRulesUnit parsedRules topologicalOrder = Inr res"
    and "ruleName \<in> set topologicalOrder"
    and "map_of parsedRules ruleName = Some (Rule ruleName ruleTitle acronyme (Mechanism kind explanation))"
    and "list_all (\<lambda>(key, node). rootsAgree ruleName kind node) parsedRules"
  shows "(kind \<in> gateKinds \<longrightarrow> res ruleName = Some (Some \<lparr>isNullable = True\<rparr>))
       \<and> (kind \<in> aggregationKinds \<longrightarrow> res ruleName = Some (Some \<lparr>isNullable = False\<rparr>))"
proof -
  from assms(1) have "inferEach parsedRules topologicalOrder Map.empty = Inr res"
    by (simp add: inferRulesUnit_def)
  from inferEach_fact[OF this assms(4) assms(3)] assms(2)
  have "res ruleName = Some (Some (mechanismUnit kind))" by simp
  then show ?thesis by (auto simp: gateKinds_def aggregationKinds_def)
qed

theorem inferRulesUnit_gate_and_aggregation_witness:
  "\<exists>res. inferRulesUnit gateAndSum [''a'', ''b''] = Inr res
       \<and> res ''a'' = Some (Some \<lparr>isNullable = True\<rparr>)
       \<and> res ''b'' = Some (Some \<lparr>isNullable = False\<rparr>)"
proof -
  obtain res where r: "inferRulesUnit gateAndSum [''a'', ''b''] = Inr res"
    by (simp add: inferRulesUnit_def example_defs)
  have a: "res ''a'' = Some (Some \<lparr>isNullable = True\<rparr>)"
    using inferRulesUnit_gate_and_aggregation[OF r, of "''a''" None None ApplicableSi "[Constant (Some 1)]"]
    by (simp add: example_defs rootsAgree_def gateKinds_def)
  have b: "res ''b'' = Some (Some \<lparr>isNullable = False\<rparr>)"
    using inferRulesUnit_gate_and_aggregation[OF r, of "''b''" None None Somme
              "[Reference (resolvedReference ''b'' ''a'')]"]
    by (simp add: example_defs rootsAgree_def aggregationKinds_def)
  from r a b show ?thesis by blast
qed

section \<open>Properties of reference resolution\<close>

lemma nodeDependencies_update:
  "nodeDependencies (AList.update k v g) x = (if x = k then v else nodeDependencies g x)"
  by (simp add: nodeDependencies_def update_conv')

lemma disambiguateReference_edges:
  assumes "disambiguateReference resolve parsedRules node dependencies = Inr (replacement, dependencies')"
  shows "nodeDependencies dependencies' rule
           = nodeDependencies dependencies rule @ realEdge resolve parsedRules rule node"
proof (cases node)
  case (Reference r)
  with assms show ?thesis
    by (auto simp: disambiguateReference_def nodeDependencies_update Let_def
             split: sum.splits option.splits ASTNode.splits if_splits)
qed (use assms in \<open>auto simp: disambiguateReference_def\<close>)

text \<open>
  C7. Whenever the resolution of the visited nodes succeeds, the dependency list of every
  rule is its former list followed by the resolved targets of its unflagged reference
  nodes, one per node, in the order the nodes were resolved and with repetitions kept; a
  flagged node and a node that is not a reference add nothing.
\<close>

theorem dependency_edges_follow_resolution_order:
  assumes "disambiguateEach resolve parsedRules visited dependencies = Inr dependencies'"
  shows "nodeDependencies dependencies' rule
           = nodeDependencies dependencies rule @ realEdges resolve parsedRules visited rule"
  using assms
proof (induction visited arbitrary: dependencies)
  case Nil
  then show ?case by (simp add: realEdges_def)
next
  case (Cons node visited)
  from Cons.prems obtain replacement d1
    where step: "disambiguateReference resolve parsedRules node dependencies = Inr (replacement, d1)"
      and rest: "disambiguateEach resolve parsedRules visited d1 = Inr dependencies'"
    by (auto split: sum.splits prod.splits)
  from Cons.IH[OF rest] disambiguateReference_edges[OF step, of rule]
  show ?case by (simp add: realEdges_def)
qed

theorem dependency_edges_follow_resolution_order_witness:
  "disambiguateEach sameName gateAndSum
      [Reference (plainReference ''a'' ''b''), Constant (Some 2),
       Reference (plainReference ''a'' ''b''),
       Reference ((plainReference ''a'' ''a'')\<lparr>thisReferenceIsNotARealDependencyHack := True\<rparr>),
       Reference (plainReference ''b'' ''a''), Reference (plainReference ''a'' ''a'')] []
     = Inr [(''a'', [''b'', ''b'', ''a'']), (''b'', [''a''])]
   \<and> nodeDependencies [(''a'', [''b'', ''b'', ''a'']), (''b'', [''a''])] ''a'' = [''b'', ''b'', ''a'']"
proof -
  let ?visited = "[Reference (plainReference ''a'' ''b''), Constant (Some 2),
       Reference (plainReference ''a'' ''b''),
       Reference ((plainReference ''a'' ''a'')\<lparr>thisReferenceIsNotARealDependencyHack := True\<rparr>),
       Reference (plainReference ''b'' ''a''), Reference (plainReference ''a'' ''a'')]"
  have run: "disambiguateEach sameName gateAndSum ?visited []
               = Inr [(''a'', [''b'', ''b'', ''a'']), (''b'', [''a''])]"
    by (simp add: disambiguateReference_def nodeDependencies_def example_defs)
  from dependency_edges_follow_resolution_order[OF run, of "''a''"]
  have "nodeDependencies [(''a'', [''b'', ''b'', ''a'']), (''b'', [''a''])] ''a'' = [''b'', ''b'', ''a'']"
    by (simp add: realEdges_def nodeDependencies_def example_defs)
  with run show ?thesis by blast
qed

section \<open>Own properties, spread and rest\<close>

text \<open>
  \<open>ownEntries\<close> lists the own enumerable properties that \<open>{...x}\<close>, a rest pattern and
  \<open>Object.entries\<close> see: the entries of an object, the index keys of a sequence or of a
  string, nothing for the other scalars. \<open>spread obj source\<close> is \<open>{...obj, ...source}\<close>.
  \<open>typeofObject\<close> is \<open>typeof x === 'object'\<close>, which holds of \<open>null\<close> and of sequences
  too. \<open>objectEntries\<close> is \<open>Object.entries\<close>, which throws on \<open>null\<close> and \<open>undefined\<close>.
\<close>

fun natToString :: "nat \<Rightarrow> string" where
  "natToString n =
     (if n < 10 then [''0123456789'' ! n]
      else natToString (n div 10) @ [''0123456789'' ! (n mod 10)])"

declare natToString.simps [simp del]

fun ownEntries :: "'n rawNode \<Rightarrow> (string \<times> 'n rawNode) list" where
  "ownEntries (Obj entries) = entries"
| "ownEntries (Arr elements) = zip (map natToString [0..<length elements]) elements"
| "ownEntries (Str s) = zip (map natToString [0..<length s]) (map (\<lambda>c. Str [c]) s)"
| "ownEntries v = []"

definition spread :: "(string \<times> 'n rawNode) list \<Rightarrow> 'n rawNode \<Rightarrow> (string \<times> 'n rawNode) list" where
  "spread obj source = foldl (\<lambda>acc (key, value). AList.update key value acc) obj (ownEntries source)"

fun typeofObject :: "'n rawNode \<Rightarrow> bool" where
  "typeofObject Null = True"
| "typeofObject (Arr elements) = True"
| "typeofObject (Obj entries) = True"
| "typeofObject v = False"

definition objectEntries :: "'n rawNode \<Rightarrow> error + (string \<times> 'n rawNode) list" where
  "objectEntries v =
     (case v of
        Undefined \<Rightarrow> Inl (TypeError ''Cannot convert undefined or null to object'')
      | Null \<Rightarrow> Inl (TypeError ''Cannot convert undefined or null to object'')
      | _ \<Rightarrow> Inr (ownEntries v))"

section \<open>Components expansion: \<open>decompose\<close>\<close>

text \<open>
  \<open>destructure key v\<close> is the pattern \<open>const { key, ...rest } = v\<close>: it throws on
  \<open>undefined\<close> and \<open>null\<close>, and otherwise gives the property (or \<open>undefined\<close>) and the
  remaining own entries. \<open>parse\<close> is not part of these files and is the parameter
  \<open>parseValue\<close>. The node it returns is kept as an opaque payload \<open>nodeFields\<close> beside the
  one field \<open>decompose\<close> writes, \<open>sourcemapInfo\<close>: \<open>{...explanation, sourcemapInfo: m}\<close>
  copies every other field unchanged. \<open>composantes.map\<close> throws unless \<open>composantes\<close> is a
  sequence.
\<close>

record sourcemap =
  mecanismName :: string

record 'a annotatedNode =
  nodeFields :: 'a
  sourcemapInfo :: "sourcemap option"

definition destructure :: "string \<Rightarrow> 'n rawNode \<Rightarrow> error + ('n rawNode \<times> (string \<times> 'n rawNode) list)" where
  "destructure key v =
     (case v of
        Undefined \<Rightarrow> Inl (TypeError ''Cannot destructure undefined or null'')
      | Null \<Rightarrow> Inl (TypeError ''Cannot destructure undefined or null'')
      | _ \<Rightarrow> Inr ((case map_of (ownEntries v) key of None \<Rightarrow> Undefined | Some x \<Rightarrow> x),
                  AList.delete key (ownEntries v)))"

definition composanteValue ::
  "string \<Rightarrow> (string \<times> 'n rawNode) list \<Rightarrow> 'n rawNode \<Rightarrow> error + 'n rawNode" where
  "composanteValue k factoredKeys composante =
     (case destructure ''attributs'' composante of
        Inl e \<Rightarrow> Inl e
      | Inr (attributs, otherKeys) \<Rightarrow>
          Inr (Obj (AList.update ''valeur''
                      (Obj [(k, Obj (spread (spread [] (Obj factoredKeys)) (Obj otherKeys)))])
                      (spread [] attributs))))"

fun mapComposantes ::
  "string \<Rightarrow> (string \<times> 'n rawNode) list \<Rightarrow> 'n rawNode list \<Rightarrow> error + 'n rawNode list" where
  "mapComposantes k factoredKeys [] = Inr []"
| "mapComposantes k factoredKeys (composante # rest) =
     (case composanteValue k factoredKeys composante of
        Inl e \<Rightarrow> Inl e
      | Inr summand \<Rightarrow>
          (case mapComposantes k factoredKeys rest of
             Inl e \<Rightarrow> Inl e
           | Inr summands \<Rightarrow> Inr (summand # summands)))"

definition decompose ::
  "('n rawNode \<Rightarrow> 'c \<Rightarrow> error + 'a annotatedNode) \<Rightarrow> string \<Rightarrow> 'n rawNode \<Rightarrow> 'c
     \<Rightarrow> error + 'a annotatedNode" where
  "decompose parseValue k v context =
     (case destructure ''composantes'' v of
        Inl e \<Rightarrow> Inl e
      | Inr (composantes, factoredKeys) \<Rightarrow>
          (case composantes of
             Arr elements \<Rightarrow>
               (case mapComposantes k factoredKeys elements of
                  Inl e \<Rightarrow> Inl e
                | Inr somme \<Rightarrow>
                    (case parseValue (Obj [(''somme'', Arr somme)]) context of
                       Inl e \<Rightarrow> Inl e
                     | Inr explanation \<Rightarrow>
                         Inr (explanation\<lparr>sourcemapInfo := Some \<lparr>mecanismName = ''composantes''\<rparr>\<rparr>)))
           | _ \<Rightarrow> Inl (TypeError ''composantes.map is not a function'')))"

section \<open>The compiler: \<open>parsePublicodes\<close>\<close>

text \<open>
  The functions imported from other files are parameters, gathered in \<open>collaborators\<close>:
  the decoder \<open>yaml.parse\<close>, \<open>parse\<close> (which registers rule nodes in the context it is
  given), \<open>disambiguateRuleReference\<close>, \<open>traverseParsedRules\<close> applied to a transformer
  built from a callback that threads the dependency graph, and the replacement pass
  (\<open>getReplacements\<close> followed by \<open>inlineReplacements\<close> and the traversal).
  \<open>numberToString\<close> is the rendering of a number in a template literal. The logger and the
  unit hook are only handed on; \<open>None\<close> stands for the default (\<open>console\<close>, the
  identity). The fields of \<open>Context\<close> carry the prefix \<open>ctx\<close>, those of the optional
  argument the prefix \<open>partial\<close> (\<open>dottedName\<close> is already a field of the reference
  node).

  \<open>parseEach\<close> is the \<open>forEach\<close> over the entries of the desugared rules: shorthand
  normalisation (\<open>shorthandRule\<close>), the \<open>typeof rule !== 'object'\<close> check, and the call of
  \<open>parse\<close> on \<open>{ nom: dottedName, ...rule }\<close>. Every throw ends the whole call.
\<close>

typedecl loggerSink
typedecl unitKeyHook

record 'v Context =
  ctxDottedName :: string
  ctxParsedRules :: "'v parsedRules"
  ctxLogger :: "loggerSink option"
  ctxGetUnitKey :: "unitKeyHook option"

record 'v PartialContext =
  partialDottedName :: "string option"
  partialParsedRules :: "'v parsedRules option"
  partialLogger :: "loggerSink option"
  partialGetUnitKey :: "unitKeyHook option"

record ('n, 'v) collaborators =
  yamlParse :: "string \<Rightarrow> error + 'n rawNode"
  numberToString :: "'n \<Rightarrow> string"
  parse :: "'n rawNode \<Rightarrow> 'v Context \<Rightarrow> error + 'v Context"
  disambiguateRuleReference :: "'v resolver"
  traverseParsedRules ::
    "('v ASTNode \<Rightarrow> string dependencyGraph \<Rightarrow> error + ('v ASTNode option \<times> string dependencyGraph))
       \<Rightarrow> 'v parsedRules \<Rightarrow> string dependencyGraph
       \<Rightarrow> error + ('v parsedRules \<times> string dependencyGraph)"
  inlineReplacements :: "'v parsedRules \<Rightarrow> loggerSink option \<Rightarrow> error + 'v parsedRules"

datatype 'n rawInput = Text string | Mapping "(string \<times> 'n rawNode) list"

definition replaceTabs :: "string \<Rightarrow> string" where
  "replaceTabs s = concat (map (\<lambda>c. if c = CHR 0x09 then ''  '' else [c]) s)"

definition makeContext :: "'v PartialContext \<Rightarrow> 'v Context" where
  "makeContext partialContext =
     \<lparr>ctxDottedName = (case partialDottedName partialContext of None \<Rightarrow> [] | Some d \<Rightarrow> d),
      ctxParsedRules = (case partialParsedRules partialContext of None \<Rightarrow> [] | Some rules \<Rightarrow> rules),
      ctxLogger = partialLogger partialContext,
      ctxGetUnitKey = partialGetUnitKey partialContext\<rparr>"

text \<open>The default of the second argument, \<open>partialContext = {}\<close>.\<close>

definition noPartialContext :: "'v PartialContext" where
  "noPartialContext = \<lparr>partialDottedName = None, partialParsedRules = None,
                        partialLogger = None, partialGetUnitKey = None\<rparr>"

definition incorrectlyWritten :: "string \<Rightarrow> string" where
  "incorrectlyWritten ruleName =
     ''Rule '' @ ruleName @ '' is incorrectly written. Please give it a proper value.''"

fun shorthandRule :: "('n, 'v) collaborators \<Rightarrow> 'n rawNode \<Rightarrow> 'n rawNode" where
  "shorthandRule C (Str s) = Obj [(''formule'', Str s)]"
| "shorthandRule C (Num n) = Obj [(''formule'', Str (numberToString C n))]"
| "shorthandRule C rule = rule"

fun parseEach ::
  "('n, 'v) collaborators \<Rightarrow> (string \<times> 'n rawNode) list \<Rightarrow> 'v Context \<Rightarrow> error + 'v Context" where
  "parseEach C [] context = Inr context"
| "parseEach C ((ruleName, rule) # rest) context =
     (if \<not> typeofObject (shorthandRule C rule)
      then Inl (SyntaxError (incorrectlyWritten ruleName))
      else (case parse C (Obj (spread [(''nom'', Str ruleName)] (shorthandRule C rule))) context of
              Inl e \<Rightarrow> Inl e
            | Inr context' \<Rightarrow> parseEach C rest context'))"

text \<open>
  \<open>linkRules\<close> is the second half of \<open>parsePublicodes\<close>, from \<open>STEP 4\<close> on: reference
  resolution with the dependency graph, the topological order, the replacement pass and
  the inference, whose result \<open>ruleUnits\<close> is dropped while its throw is not.
\<close>

definition linkRules :: "('n, 'v) collaborators \<Rightarrow> 'v Context \<Rightarrow> error + 'v parsedRules" where
  "linkRules C context =
     (case traverseParsedRules C
             (disambiguateReference (disambiguateRuleReference C) (ctxParsedRules context))
             (ctxParsedRules context) [] of
        Inl e \<Rightarrow> Inl e
      | Inr (resolved, dependencies) \<Rightarrow>
     (let topologicalOrder = topologicalSort (map fst resolved) dependencies in
     (case inlineReplacements C resolved (ctxLogger context) of
        Inl e \<Rightarrow> Inl e
      | Inr parsedRules \<Rightarrow>
     (case inferRulesUnit parsedRules topologicalOrder of
        Inl e \<Rightarrow> Inl e
      | Inr ruleUnits \<Rightarrow> Inr parsedRules))))"

definition parsePublicodes ::
  "('n, 'v) collaborators \<Rightarrow> 'n rawInput \<Rightarrow> 'v PartialContext \<Rightarrow> error + 'v parsedRules" where
  "parsePublicodes C rawRules partialContext =
     (case (case rawRules of
              Text source \<Rightarrow> yamlParse C (replaceTabs source)
            | Mapping entries \<Rightarrow> Inr (Obj (spread [] (Obj entries)))) of
        Inl e \<Rightarrow> Inl e
      | Inr decoded \<Rightarrow>
     (case objectEntries (transpileRef decoded) of
        Inl e \<Rightarrow> Inl e
      | Inr rules \<Rightarrow>
     (case parseEach C rules (makeContext partialContext) of
        Inl e \<Rightarrow> Inl e
      | Inr context \<Rightarrow> linkRules C context)))"

section \<open>Stand-ins for the collaborators\<close>

text \<open>
  \<open>stubParse\<close> registers a rule with a constant root under the name it is given;
  \<open>stubTraverse\<close> offers each stored node to the callback; the other stand-ins do nothing.
\<close>

fun stubTraverse ::
  "('v ASTNode \<Rightarrow> string dependencyGraph \<Rightarrow> error + ('v ASTNode option \<times> string dependencyGraph))
     \<Rightarrow> 'v parsedRules \<Rightarrow> string dependencyGraph
     \<Rightarrow> error + ('v parsedRules \<times> string dependencyGraph)" where
  "stubTraverse f [] dependencies = Inr ([], dependencies)"
| "stubTraverse f ((key, node) # rest) dependencies =
     (case f node dependencies of
        Inl e \<Rightarrow> Inl e
      | Inr (replacement, dependencies') \<Rightarrow>
          (case stubTraverse f rest dependencies' of
             Inl e \<Rightarrow> Inl e
           | Inr (rules, dependencies'') \<Rightarrow>
               Inr ((key, case replacement of None \<Rightarrow> node | Some node' \<Rightarrow> node') # rules,
                    dependencies'')))"

definition stubParse :: "int rawNode \<Rightarrow> int Context \<Rightarrow> error + int Context" where
  "stubParse rule context =
     (case rule of
        Obj entries \<Rightarrow>
          (case map_of entries ''nom'' of
             Some (Str ruleName) \<Rightarrow>
               Inr (context\<lparr>ctxParsedRules :=
                      AList.update ruleName (Rule ruleName None None (Constant None))
                        (ctxParsedRules context)\<rparr>)
           | _ \<Rightarrow> Inl (CollaboratorError ''no name''))
      | _ \<Rightarrow> Inl (CollaboratorError ''no rule''))"

definition stubCollaborators :: "(int, int) collaborators" where
  "stubCollaborators =
     \<lparr>yamlParse = (\<lambda>source. Inl (CollaboratorError ''no decoder'')),
      numberToString = (\<lambda>n. if n < 0 then CHR ''-'' # natToString (nat (- n)) else natToString (nat n)),
      parse = stubParse,
      disambiguateRuleReference = sameName,
      traverseParsedRules = stubTraverse,
      inlineReplacements = (\<lambda>rules logger. Inr rules)\<rparr>"


section \<open>Properties of the compiler\<close>


lemma typeofObject_shorthandRule:
  "\<not> typeofObject (shorthandRule C body) \<longleftrightarrow> body = Undefined \<or> (\<exists>b. body = Bool b)"
  by (cases body) auto




text \<open>
  C9. A \<open>null\<close> body is not rejected by the malformed-body check: the rule is handed to
  \<open>parse\<close> as \<open>{ nom: dottedName }\<close>. The check raises its SyntaxError exactly for the
  bodies that are neither string, number, \<open>null\<close>, object nor sequence, that is for a
  boolean and for \<open>undefined\<close>; every other body is delegated.
\<close>

theorem malformed_body_check:
  "parseEach C ((ruleName, Null) # rest) context
     = (case parse C (Obj [(''nom'', Str ruleName)]) context of
          Inl e \<Rightarrow> Inl e
        | Inr context' \<Rightarrow> parseEach C rest context')
   \<and> parseEach C ((ruleName, body) # rest) context
     = (if body = Undefined \<or> (\<exists>b. body = Bool b)
        then Inl (SyntaxError (''Rule '' @ ruleName @ '' is incorrectly written. Please give it a proper value.''))
        else (case parse C (Obj (spread [(''nom'', Str ruleName)] (shorthandRule C body))) context of
                Inl e \<Rightarrow> Inl e
              | Inr context' \<Rightarrow> parseEach C rest context'))"
  using typeofObject_shorthandRule[of C body]
  by (auto simp: spread_def incorrectlyWritten_def)

section \<open>Properties of the components expansion\<close>

lemma map_of_foldl_update:
  "distinct (map fst xs) \<Longrightarrow>
     map_of (foldl (\<lambda>acc (key, value). AList.update key value acc) base xs) = map_of base ++ map_of xs"
proof (induction xs arbitrary: base)
  case Nil
  then show ?case by simp
next
  case (Cons kv xs)
  obtain k v where kv: "kv = (k, v)" by (cases kv)
  from Cons.prems kv have fresh: "map_of xs k = None"
    by (auto simp: map_of_eq_None_iff)
  from Cons.prems have "distinct (map fst xs)" by simp
  from Cons.IH[OF this, of "AList.update k v base"] kv
  have "map_of (foldl (\<lambda>acc (key, value). AList.update key value acc) base (kv # xs))
          = map_of (AList.update k v base) ++ map_of xs"
    by simp
  also have "\<dots> = (map_of base)(k \<mapsto> v) ++ map_of xs"
    by (simp only: update_conv')
  also have "\<dots> = map_of base ++ map_of (kv # xs)"
    using fresh kv by (auto simp: fun_eq_iff map_add_def split: option.splits)
  finally show ?case .
qed

lemma map_of_spread_Obj:
  "distinct (map fst entries) \<Longrightarrow> map_of (spread base (Obj entries)) = map_of base ++ map_of entries"
  by (simp add: spread_def map_of_foldl_update)

lemma composanteValue_Obj:
  assumes "distinct (map fst factoredKeys)" "distinct (map fst component)"
  shows "\<exists>summand merged. composanteValue k factoredKeys (Obj component) = Inr (Obj summand)
           \<and> map_of summand ''valeur'' = Some (Obj [(k, Obj merged)])
           \<and> map_of merged = map_of factoredKeys ++ map_of (AList.delete ''attributs'' component)"
proof -
  have "distinct (map fst (AList.delete ''attributs'' component))"
    using assms(2) by (rule distinct_delete)
  then have "map_of (spread (spread [] (Obj factoredKeys)) (Obj (AList.delete ''attributs'' component)))
          = map_of factoredKeys ++ map_of (AList.delete ''attributs'' component)"
    using assms(1) by (simp add: map_of_spread_Obj)
  then show ?thesis
    by (simp add: composanteValue_def destructure_def update_conv')
qed

lemma mapComposantes_Obj:
  assumes "distinct (map fst factoredKeys)" "\<forall>c \<in> set components. distinct (map fst c)"
  shows "\<exists>summands. mapComposantes k factoredKeys (map Obj components) = Inr (map Obj summands)
           \<and> length summands = length components
           \<and> (\<forall>i < length components. \<exists>merged.
                 map_of (summands ! i) ''valeur'' = Some (Obj [(k, Obj merged)])
                 \<and> map_of merged = map_of factoredKeys ++ map_of (AList.delete ''attributs'' (components ! i)))"
  using assms(2)
proof (induction components)
  case Nil
  then show ?case by simp
next
  case (Cons c components)
  from Cons.prems have "distinct (map fst c)" by simp
  from composanteValue_Obj[OF assms(1) this, of k]
  obtain summand merged where s: "composanteValue k factoredKeys (Obj c) = Inr (Obj summand)"
    "map_of summand ''valeur'' = Some (Obj [(k, Obj merged)])"
    "map_of merged = map_of factoredKeys ++ map_of (AList.delete ''attributs'' c)" by blast
  from Cons.IH Cons.prems
  obtain summands where r: "mapComposantes k factoredKeys (map Obj components) = Inr (map Obj summands)"
    "length summands = length components"
    "\<forall>i < length components. \<exists>merged.
        map_of (summands ! i) ''valeur'' = Some (Obj [(k, Obj merged)])
        \<and> map_of merged = map_of factoredKeys ++ map_of (AList.delete ''attributs'' (components ! i))"
    by auto
  have "\<forall>i < length (c # components). \<exists>merged.
        map_of ((summand # summands) ! i) ''valeur'' = Some (Obj [(k, Obj merged)])
        \<and> map_of merged = map_of factoredKeys ++ map_of (AList.delete ''attributs'' ((c # components) ! i))"
  proof (intro allI impI)
    fix i assume "i < length (c # components)"
    then show "\<exists>merged.
        map_of ((summand # summands) ! i) ''valeur'' = Some (Obj [(k, Obj merged)])
        \<and> map_of merged = map_of factoredKeys ++ map_of (AList.delete ''attributs'' ((c # components) ! i))"
      using s(2,3) r(3) by (cases i) auto
  qed
  moreover have "mapComposantes k factoredKeys (map Obj (c # components)) = Inr (map Obj (summand # summands))"
    using s(1) r(1) by simp
  moreover have "length (summand # summands) = length (c # components)" using r(2) by simp
  ultimately show ?case by blast
qed

text \<open>
  C6. For an input object with a \<open>composantes\<close> list of objects, \<open>decompose\<close> asks \<open>parse\<close>
  for a \<open>somme\<close> over one summand per component, and returns the node it gets with
  \<open>sourcemapInfo\<close> naming the mechanism \<open>composantes\<close>. The \<open>valeur\<close> of each summand is, under
  the placeholder key \<open>k\<close>, the factored keys (all keys of the input but \<open>composantes\<close>)
  overridden by the keys of the component other than \<open>attributs\<close>: a key present in both
  takes the component's value.
\<close>

theorem decompose_sum_of_merged_components:
  assumes "distinct (map fst entries)"
    and "map_of entries ''composantes'' = Some (Arr (map Obj components))"
    and "\<forall>c \<in> set components. distinct (map fst c)"
  shows "\<exists>summands.
           decompose parseValue k (Obj entries) context
             = (case parseValue (Obj [(''somme'', Arr (map Obj summands))]) context of
                  Inl e \<Rightarrow> Inl e
                | Inr explanation \<Rightarrow>
                    Inr (explanation\<lparr>sourcemapInfo := Some \<lparr>mecanismName = ''composantes''\<rparr>\<rparr>))
           \<and> length summands = length components
           \<and> (\<forall>i < length components. \<exists>merged.
                 map_of (summands ! i) ''valeur'' = Some (Obj [(k, Obj merged)])
                 \<and> map_of merged = map_of (AList.delete ''composantes'' entries)
                                      ++ map_of (AList.delete ''attributs'' (components ! i)))"
proof -
  have "distinct (map fst (AList.delete ''composantes'' entries))"
    using assms(1) by (rule distinct_delete)
  from mapComposantes_Obj[OF this assms(3), of k]
  obtain summands where r:
    "mapComposantes k (AList.delete ''composantes'' entries) (map Obj components) = Inr (map Obj summands)"
    "length summands = length components"
    "\<forall>i < length components. \<exists>merged.
        map_of (summands ! i) ''valeur'' = Some (Obj [(k, Obj merged)])
        \<and> map_of merged = map_of (AList.delete ''composantes'' entries)
                             ++ map_of (AList.delete ''attributs'' (components ! i))"
    by blast
  have "decompose parseValue k (Obj entries) context
          = (case parseValue (Obj [(''somme'', Arr (map Obj summands))]) context of
               Inl e \<Rightarrow> Inl e
             | Inr explanation \<Rightarrow>
                 Inr (explanation\<lparr>sourcemapInfo := Some \<lparr>mecanismName = ''composantes''\<rparr>\<rparr>))"
    using assms(2) r(1) by (simp add: decompose_def destructure_def)
  with r(2,3) show ?thesis by blast
qed

definition echoNode :: "int rawNode \<Rightarrow> unit \<Rightarrow> error + (int rawNode) annotatedNode" where
  "echoNode v context = Inr \<lparr>nodeFields = v, sourcemapInfo = None\<rparr>"

theorem decompose_sum_of_merged_components_witness:
  "decompose echoNode ''montant''
      (Obj [(''composantes'', Arr (map Obj [[(''a'', Num 1), (''taux'', Num 7)], [(''b'', Num 2)]])),
            (''taux'', Num 3)]) ()
     = Inr \<lparr>nodeFields =
               Obj [(''somme'',
                     Arr [Obj [(''valeur'', Obj [(''montant'', Obj [(''taux'', Num 7), (''a'', Num 1)])])],
                          Obj [(''valeur'', Obj [(''montant'', Obj [(''taux'', Num 3), (''b'', Num 2)])])]])],
             sourcemapInfo = Some \<lparr>mecanismName = ''composantes''\<rparr>\<rparr>
   \<and> (\<exists>summands.
         decompose echoNode ''montant''
           (Obj [(''composantes'', Arr (map Obj [[(''a'', Num 1), (''taux'', Num 7)], [(''b'', Num 2)]])),
                 (''taux'', Num 3)]) ()
           = Inr \<lparr>nodeFields = Obj [(''somme'', Arr (map Obj summands))],
                   sourcemapInfo = Some \<lparr>mecanismName = ''composantes''\<rparr>\<rparr>
         \<and> length summands = 2)"
proof -
  let ?components = "[[(''a'', Num (1::int)), (''taux'', Num 7)], [(''b'', Num 2)]]"
  let ?entries = "[(''composantes'', Arr (map Obj ?components)), (''taux'', Num 3)]"
  have 1: "distinct (map fst ?entries)" by simp
  have 2: "map_of ?entries ''composantes'' = Some (Arr (map Obj ?components))" by simp
  have 3: "\<forall>c \<in> set ?components. distinct (map fst c)" by simp
  from decompose_sum_of_merged_components[OF 1 2 3, of echoNode "''montant''" "()"]
  obtain summands where
    "decompose echoNode ''montant'' (Obj ?entries) ()
       = Inr \<lparr>nodeFields = Obj [(''somme'', Arr (map Obj summands))],
               sourcemapInfo = Some \<lparr>mecanismName = ''composantes''\<rparr>\<rparr>"
    "length summands = 2"
    by (auto simp: echoNode_def)
  moreover have "decompose echoNode ''montant'' (Obj ?entries) ()
     = Inr \<lparr>nodeFields =
               Obj [(''somme'',
                     Arr [Obj [(''valeur'', Obj [(''montant'', Obj [(''taux'', Num 7), (''a'', Num 1)])])],
                          Obj [(''valeur'', Obj [(''montant'', Obj [(''taux'', Num 3), (''b'', Num 2)])])]])],
             sourcemapInfo = Some \<lparr>mecanismName = ''composantes''\<rparr>\<rparr>"
    by (simp add: decompose_def destructure_def composanteValue_def spread_def echoNode_def)
  ultimately show ?thesis by blast
qed

section \<open>A store for the caller's objects\<close>

text \<open>
  To speak about what a call does to the objects of its caller, objects and sequences
  live in a store: a list of cells, a reference being the index of its cell. Creating
  an object appends a cell; nothing in this section overwrites one. \<open>cellEntries\<close> are
  the own entries of a cell, \<open>ownEntriesH\<close> and \<open>spreadH\<close> are \<open>ownEntries\<close> and \<open>spread\<close>
  read through the store.
\<close>

datatype 'n val = VUndefined | VNull | VBool bool | VNum 'n | VStr string | VRef nat

datatype 'n cell = ArrCell "'n val list" | ObjCell "(string \<times> 'n val) list"

type_synonym 'n heap = "'n cell list"

definition cellAt :: "'n heap \<Rightarrow> nat \<Rightarrow> 'n cell option" where
  "cellAt h a = (if a < length h then Some (h ! a) else None)"

fun cellEntries :: "'n cell \<Rightarrow> (string \<times> 'n val) list" where
  "cellEntries (ObjCell entries) = entries"
| "cellEntries (ArrCell elements) = zip (map natToString [0..<length elements]) elements"

definition ownEntriesH :: "'n heap \<Rightarrow> 'n val \<Rightarrow> (string \<times> 'n val) list" where
  "ownEntriesH h v =
     (case v of
        VRef a \<Rightarrow> (case cellAt h a of None \<Rightarrow> [] | Some c \<Rightarrow> cellEntries c)
      | VStr s \<Rightarrow> zip (map natToString [0..<length s]) (map (\<lambda>c. VStr [c]) s)
      | _ \<Rightarrow> [])"

definition spreadH :: "'n heap \<Rightarrow> (string \<times> 'n val) list \<Rightarrow> 'n val \<Rightarrow> (string \<times> 'n val) list" where
  "spreadH h obj source = foldl (\<lambda>acc (key, value). AList.update key value acc) obj (ownEntriesH h source)"

text \<open>
  \<open>transpileRef\<close> on the store. \<open>mapH\<close> is \<open>object.map(transpileRef)\<close>, \<open>reduceH\<close> the
  \<open>reduce\<close>, whose accumulator starts as a new empty object and is a new object after
  every entry (\<open>{ ...obj, [key]: v }\<close>); a shorthand key creates the
  \<open>{ nom, valeur }\<close> object as well. The first argument bounds the depth of the calls:
  when it is used up the call throws the engine's \<open>RangeError\<close>, as it does on the
  script's stack for a tree that is too deep or loops back on itself. (Cells are
  numbered in the order the model creates them; the order is not observable.)
\<close>

fun transpileRefH :: "nat \<Rightarrow> 'n heap \<Rightarrow> 'n val \<Rightarrow> (error + 'n val) \<times> 'n heap"
  and mapH :: "nat \<Rightarrow> 'n heap \<Rightarrow> 'n val list \<Rightarrow> (error + 'n val list) \<times> 'n heap"
  and reduceH :: "nat \<Rightarrow> 'n heap \<Rightarrow> (string \<times> 'n val) list \<Rightarrow> 'n val \<Rightarrow> (error + 'n val) \<times> 'n heap"
where
  "transpileRefH 0 h object = (Inl (RangeError ''Maximum call stack size exceeded''), h)"
| "transpileRefH (Suc depth) h (VRef a) =
     (case cellAt h a of
        None \<Rightarrow> (Inl (TypeError ''no such object''), h)
      | Some (ArrCell elements) \<Rightarrow>
          (case mapH depth h elements of
             (Inl e, h') \<Rightarrow> (Inl e, h')
           | (Inr elements', h') \<Rightarrow> (Inr (VRef (length h')), h' @ [ArrCell elements']))
      | Some (ObjCell entries) \<Rightarrow> reduceH depth (h @ [ObjCell []]) entries (VRef (length h)))"
| "transpileRefH (Suc depth) h object = (Inr object, h)"
| "mapH depth h [] = (Inr [], h)"
| "mapH depth h (element # rest) =
     (case transpileRefH depth h element of
        (Inl e, h') \<Rightarrow> (Inl e, h')
      | (Inr element', h') \<Rightarrow>
          (case mapH depth h' rest of
             (Inl e, h'') \<Rightarrow> (Inl e, h'')
           | (Inr rest', h'') \<Rightarrow> (Inr (element' # rest'), h'')))"
| "reduceH depth h [] obj = (Inr obj, h)"
| "reduceH depth h ((key, value) # rest) obj =
     (case transpileRefH depth h value of
        (Inl e, h') \<Rightarrow> (Inl e, h')
      | (Inr value', h') \<Rightarrow>
          (case refExec key of
             None \<Rightarrow>
               reduceH depth (h' @ [ObjCell (AList.update key value' (ownEntriesH h' obj))]) rest
                 (VRef (length h'))
           | Some (match0, match2) \<Rightarrow>
               let argumentType = trim (replaceFirst match0 key);
                   argumentName = (case match2 of
                                     None \<Rightarrow> argumentType
                                   | Some m \<Rightarrow> if trim m = [] then argumentType else trim m);
                   h'' = h' @ [ObjCell [(''nom'', VStr argumentName), (''valeur'', value')]]
               in reduceH depth
                    (h'' @ [ObjCell (AList.update argumentType (VRef (length h')) (ownEntriesH h'' obj))])
                    rest (VRef (length h''))))"

text \<open>
  \<open>parsePublicodes\<close> on the store. A string input is decoded and the decoded tree is
  created in the store (\<open>store\<close>); any other input is copied by \<open>{ ...rawRules }\<close>. The
  rule object \<open>{ nom: dottedName, ...rule }\<close> handed to \<open>parse\<close> is a new cell at each
  step. \<open>parse\<close> itself is the parameter \<open>P\<close>, which may read and write the store; the
  passes of \<open>linkRules\<close> work on the rule map.
\<close>

type_synonym ('n, 'v) parseH = "'n heap \<Rightarrow> 'n val \<Rightarrow> 'v Context \<Rightarrow> (error + 'v Context) \<times> 'n heap"

fun typeofObjectH :: "'n val \<Rightarrow> bool" where
  "typeofObjectH VNull = True"
| "typeofObjectH (VRef a) = True"
| "typeofObjectH v = False"

fun shorthandRuleH :: "('n, 'v) collaborators \<Rightarrow> 'n heap \<Rightarrow> 'n val \<Rightarrow> 'n val \<times> 'n heap" where
  "shorthandRuleH C h (VStr s) = (VRef (length h), h @ [ObjCell [(''formule'', VStr s)]])"
| "shorthandRuleH C h (VNum n) = (VRef (length h), h @ [ObjCell [(''formule'', VStr (numberToString C n))]])"
| "shorthandRuleH C h rule = (rule, h)"

fun parseEachH ::
  "('n, 'v) collaborators \<Rightarrow> ('n, 'v) parseH \<Rightarrow> 'n heap \<Rightarrow> (string \<times> 'n val) list \<Rightarrow> 'v Context
     \<Rightarrow> (error + 'v Context) \<times> 'n heap" where
  "parseEachH C P h [] context = (Inr context, h)"
| "parseEachH C P h ((ruleName, rule) # rest) context =
     (case shorthandRuleH C h rule of
        (rule', h1) \<Rightarrow>
          if \<not> typeofObjectH rule'
          then (Inl (SyntaxError (incorrectlyWritten ruleName)), h1)
          else (case P (h1 @ [ObjCell (spreadH h1 [(''nom'', VStr ruleName)] rule')])
                       (VRef (length h1)) context of
                  (Inl e, h2) \<Rightarrow> (Inl e, h2)
                | (Inr context', h2) \<Rightarrow> parseEachH C P h2 rest context'))"

definition objectEntriesH :: "'n heap \<Rightarrow> 'n val \<Rightarrow> error + (string \<times> 'n val) list" where
  "objectEntriesH h v =
     (case v of
        VUndefined \<Rightarrow> Inl (TypeError ''Cannot convert undefined or null to object'')
      | VNull \<Rightarrow> Inl (TypeError ''Cannot convert undefined or null to object'')
      | _ \<Rightarrow> Inr (ownEntriesH h v))"

fun store :: "'n heap \<Rightarrow> 'n rawNode \<Rightarrow> 'n val \<times> 'n heap"
  and storeAll :: "'n heap \<Rightarrow> 'n rawNode list \<Rightarrow> 'n val list \<times> 'n heap"
  and storeEntries :: "'n heap \<Rightarrow> (string \<times> 'n rawNode) list \<Rightarrow> (string \<times> 'n val) list \<times> 'n heap"
where
  "store h Undefined = (VUndefined, h)"
| "store h Null = (VNull, h)"
| "store h (Bool b) = (VBool b, h)"
| "store h (Num n) = (VNum n, h)"
| "store h (Str s) = (VStr s, h)"
| "store h (Arr trees) =
     (case storeAll h trees of (elements, h') \<Rightarrow> (VRef (length h'), h' @ [ArrCell elements]))"
| "store h (Obj members) =
     (case storeEntries h members of (entries, h') \<Rightarrow> (VRef (length h'), h' @ [ObjCell entries]))"
| "storeAll h [] = ([], h)"
| "storeAll h (tree # trees) =
     (case store h tree of
        (element, h') \<Rightarrow> (case storeAll h' trees of (elements, h'') \<Rightarrow> (element # elements, h'')))"
| "storeEntries h [] = ([], h)"
| "storeEntries h ((key, tree) # members) =
     (case store h tree of
        (value, h') \<Rightarrow>
          (case storeEntries h' members of (entries, h'') \<Rightarrow> ((key, value) # entries, h'')))"

definition parsePublicodesH ::
  "nat \<Rightarrow> ('n, 'v) collaborators \<Rightarrow> ('n, 'v) parseH \<Rightarrow> 'n heap \<Rightarrow> 'n val \<Rightarrow> 'v PartialContext
     \<Rightarrow> (error + 'v parsedRules) \<times> 'n heap" where
  "parsePublicodesH depth C P h rawRules partialContext =
     (case (case rawRules of
              VStr source \<Rightarrow>
                (case yamlParse C (replaceTabs source) of
                   Inl e \<Rightarrow> (Inl e, h)
                 | Inr decoded \<Rightarrow> (case store h decoded of (rules, h') \<Rightarrow> (Inr rules, h')))
            | _ \<Rightarrow> (Inr (VRef (length h)), h @ [ObjCell (spreadH h [] rawRules)])) of
        (Inl e, h0) \<Rightarrow> (Inl e, h0)
      | (Inr decoded, h0) \<Rightarrow>
     (case transpileRefH depth h0 decoded of
        (Inl e, h1) \<Rightarrow> (Inl e, h1)
      | (Inr rules, h1) \<Rightarrow>
     (case objectEntriesH h1 rules of
        Inl e \<Rightarrow> (Inl e, h1)
      | Inr entries \<Rightarrow>
     (case parseEachH C P h1 entries (makeContext partialContext) of
        (Inl e, h2) \<Rightarrow> (Inl e, h2)
      | (Inr context, h2) \<Rightarrow> (linkRules C context, h2)))))"

section \<open>The caller's objects are left alone\<close>

text \<open>
  \<open>freshVal n0 v\<close>: if \<open>v\<close> is a reference, its cell was created at position \<open>n0\<close> or
  later. \<open>sepFrom n0 h\<close>: no cell from position \<open>n0\<close> on holds a reference to a cell
  before \<open>n0\<close>. \<open>confined P\<close> is what is asked of \<open>parse\<close>: given an argument in a part
  of the store that holds no reference to the cells before it, \<open>parse\<close> leaves those
  earlier cells as they are and keeps that part free of references to them (it reaches
  the store through its argument only). \<open>grows n0 h h'\<close>: \<open>h'\<close> is \<open>h\<close> with cells
  added, still separated from \<open>n0\<close> on.
\<close>

definition freshVal :: "nat \<Rightarrow> 'n val \<Rightarrow> bool" where
  "freshVal n0 v \<longleftrightarrow> (case v of VRef a \<Rightarrow> n0 \<le> a | _ \<Rightarrow> True)"

definition freshEntries :: "nat \<Rightarrow> (string \<times> 'n val) list \<Rightarrow> bool" where
  "freshEntries n0 entries \<longleftrightarrow> list_all (\<lambda>(key, value). freshVal n0 value) entries"

definition sepFrom :: "nat \<Rightarrow> 'n heap \<Rightarrow> bool" where
  "sepFrom n0 h \<longleftrightarrow> list_all (freshEntries n0 \<circ> cellEntries) (drop n0 h)"

definition confined :: "('n, 'v) parseH \<Rightarrow> bool" where
  "confined P \<longleftrightarrow>
     (\<forall>n0 h v context. n0 \<le> length h \<longrightarrow> sepFrom n0 h \<longrightarrow> freshVal n0 v \<longrightarrow>
        take n0 (snd (P h v context)) = take n0 h \<and> sepFrom n0 (snd (P h v context)))"

definition grows :: "nat \<Rightarrow> 'n heap \<Rightarrow> 'n heap \<Rightarrow> bool" where
  "grows n0 h h' \<longleftrightarrow> (\<exists>ext. h' = h @ ext) \<and> sepFrom n0 h'"

text \<open>
  A stand-in for \<open>parse\<close> that writes into the rule object it receives, and a caller's
  store with two objects: the rules \<open>{ a: <object 1>, 'b [ref]': 5 }\<close> and the body
  \<open>{ formule: '1' }\<close> of \<open>a\<close>.
\<close>

definition markingParse :: "(int, int) parseH" where
  "markingParse h v context =
     (case v of
        VRef a \<Rightarrow>
          (case cellAt h a of
             Some (ObjCell entries) \<Rightarrow>
               (case map_of entries ''nom'' of
                  Some (VStr ruleName) \<Rightarrow>
                    (Inr (context\<lparr>ctxParsedRules :=
                            AList.update ruleName (Rule ruleName None None (Constant None))
                              (ctxParsedRules context)\<rparr>),
                     h[a := ObjCell (AList.update ''seen'' (VBool True) entries)])
                | _ \<Rightarrow> (Inl (CollaboratorError ''no name''), h))
           | _ \<Rightarrow> (Inl (CollaboratorError ''no rule''), h))
      | _ \<Rightarrow> (Inl (CollaboratorError ''no rule''), h))"

definition callerHeap :: "int heap" where
  "callerHeap = [ObjCell [(''a'', VRef 1), (''b [ref]'', VNum 5)], ObjCell [(''formule'', VStr ''1'')]]"

lemma sepFrom_nth:
  "sepFrom n0 h \<longleftrightarrow> (\<forall>a. n0 \<le> a \<and> a < length h \<longrightarrow> freshEntries n0 (cellEntries (h ! a)))"
proof
  assume s: "sepFrom n0 h"
  show "\<forall>a. n0 \<le> a \<and> a < length h \<longrightarrow> freshEntries n0 (cellEntries (h ! a))"
  proof (intro allI impI)
    fix a assume a: "n0 \<le> a \<and> a < length h"
    then have "drop n0 h ! (a - n0) = h ! a" "a - n0 < length (drop n0 h)" by auto
    then have "h ! a \<in> set (drop n0 h)" by (metis nth_mem)
    with s show "freshEntries n0 (cellEntries (h ! a))" by (simp add: sepFrom_def list_all_iff)
  qed
next
  assume r: "\<forall>a. n0 \<le> a \<and> a < length h \<longrightarrow> freshEntries n0 (cellEntries (h ! a))"
  have "\<forall>c \<in> set (drop n0 h). freshEntries n0 (cellEntries c)"
  proof
    fix c assume "c \<in> set (drop n0 h)"
    then obtain i where i: "i < length (drop n0 h)" "drop n0 h ! i = c"
      by (auto simp: in_set_conv_nth)
    then have "h ! (n0 + i) = c" "n0 + i < length h" by auto
    with r show "freshEntries n0 (cellEntries c)" by (metis le_add1)
  qed
  then show "sepFrom n0 h" by (simp add: sepFrom_def list_all_iff)
qed

lemma sepFrom_snoc:
  "n0 \<le> length h \<Longrightarrow> sepFrom n0 (h @ [c]) \<longleftrightarrow> sepFrom n0 h \<and> freshEntries n0 (cellEntries c)"
  by (auto simp: sepFrom_def)

lemma freshEntries_update:
  "freshEntries n0 entries \<Longrightarrow> freshVal n0 v \<Longrightarrow> freshEntries n0 (AList.update k v entries)"
  by (induction entries) (auto simp: freshEntries_def)

lemma freshEntries_foldl_update:
  "freshEntries n0 acc \<Longrightarrow> freshEntries n0 xs \<Longrightarrow>
     freshEntries n0 (foldl (\<lambda>acc (key, value). AList.update key value acc) acc xs)"
proof (induction xs arbitrary: acc)
  case Nil
  then show ?case by simp
next
  case (Cons kv xs)
  obtain k v where kv: "kv = (k, v)" by (cases kv)
  from Cons.prems(2) kv have fv: "freshVal n0 v" and fx: "freshEntries n0 xs"
    by (simp_all add: freshEntries_def)
  from Cons.IH[OF freshEntries_update[OF Cons.prems(1) fv] fx] show ?case
    by (simp add: kv)
qed

lemma freshEntries_zip:
  "list_all (freshVal n0) vs \<Longrightarrow> freshEntries n0 (zip ks vs)"
  by (auto simp: freshEntries_def list_all_iff dest: set_zip_rightD)

lemma freshEntries_ownEntriesH:
  assumes "sepFrom n0 h" "freshVal n0 v"
  shows "freshEntries n0 (ownEntriesH h v)"
proof (cases v)
  case (VRef a)
  show ?thesis
  proof (cases "a < length h")
    case True
    with assms VRef have "n0 \<le> a" by (simp add: freshVal_def)
    with True assms(1) have "freshEntries n0 (cellEntries (h ! a))"
      by (simp add: sepFrom_nth)
    with True VRef show ?thesis by (simp add: ownEntriesH_def cellAt_def)
  next
    case False
    with VRef show ?thesis by (simp add: ownEntriesH_def cellAt_def freshEntries_def)
  qed
next
  case (VStr s)
  have "list_all (freshVal n0) (map (\<lambda>c. VStr [c]) s)"
    by (simp add: list_all_iff freshVal_def)
  then have "freshEntries n0 (zip (map natToString [0..<length s]) (map (\<lambda>c. VStr [c]) s))"
    by (rule freshEntries_zip)
  with VStr show ?thesis by (simp add: ownEntriesH_def)
qed (simp_all add: ownEntriesH_def freshEntries_def)

lemma grows_refl: "sepFrom n0 h \<Longrightarrow> grows n0 h h"
  by (simp add: grows_def)

lemma grows_trans: "grows n0 h h' \<Longrightarrow> grows n0 h' h'' \<Longrightarrow> grows n0 h h''"
  by (auto simp: grows_def)

lemma grows_length: "grows n0 h h' \<Longrightarrow> length h \<le> length h'"
  by (auto simp: grows_def)

lemma grows_snoc:
  "n0 \<le> length h \<Longrightarrow> sepFrom n0 h \<Longrightarrow> freshEntries n0 (cellEntries c) \<Longrightarrow> grows n0 h (h @ [c])"
  by (simp add: grows_def sepFrom_snoc)

lemma transpileRefH_grows:
  "n0 \<le> length h \<Longrightarrow> sepFrom n0 h \<Longrightarrow>
     grows n0 h (snd (transpileRefH depth h (v :: 'n val))) \<and>
     (\<forall>v'. fst (transpileRefH depth h v) = Inr v' \<longrightarrow> freshVal n0 v')"
  "n0 \<le> length h \<Longrightarrow> sepFrom n0 h \<Longrightarrow>
     grows n0 h (snd (mapH depth h (vs :: 'n val list))) \<and>
     (\<forall>vs'. fst (mapH depth h vs) = Inr vs' \<longrightarrow> list_all (freshVal n0) vs')"
  "n0 \<le> length h \<Longrightarrow> sepFrom n0 h \<Longrightarrow> freshVal n0 obj \<Longrightarrow>
     grows n0 h (snd (reduceH depth h (entries :: (string \<times> 'n val) list) obj)) \<and>
     (\<forall>v'. fst (reduceH depth h entries obj) = Inr v' \<longrightarrow> freshVal n0 v')"
proof (induction depth h v and depth h vs and depth h entries obj
       rule: transpileRefH_mapH_reduceH.induct)
  case (1 h object)
  then show ?case by (simp add: grows_refl)
next
  case (2 depth h a)
  show ?case
  proof (cases "cellAt h a")
    case None
    with 2 show ?thesis by (simp add: grows_refl)
  next
    case (Some c)
    show ?thesis
    proof (cases c)
      case (ArrCell elements)
      obtain r h' where m: "mapH depth h elements = (r, h')" by (cases "mapH depth h elements")
      from "2.IH"(1)[OF Some ArrCell "2.prems"] m
      have g: "grows n0 h h'" and f: "\<forall>vs'. r = Inr vs' \<longrightarrow> list_all (freshVal n0) vs'" by simp_all
      show ?thesis
      proof (cases r)
        case (Inl e)
        with Some ArrCell m g show ?thesis by simp
      next
        case (Inr elements')
        from g "2.prems" have len: "n0 \<le> length h'" "sepFrom n0 h'"
          using grows_length[OF g] by (auto simp: grows_def)
        from f Inr have "freshEntries n0 (cellEntries (ArrCell elements'))"
          by (simp add: freshEntries_zip)
        from grows_trans[OF g grows_snoc[OF len this]] len(1)
        show ?thesis using Some ArrCell m Inr by (simp add: freshVal_def)
      qed
    next
      case (ObjCell entries)
      have g0: "grows n0 h (h @ [ObjCell []])"
        using "2.prems" by (intro grows_snoc) (simp_all add: freshEntries_def)
      then have s0: "sepFrom n0 (h @ [ObjCell []])" by (simp add: grows_def)
      have f0: "freshVal n0 (VRef (length h))" using "2.prems" by (simp add: freshVal_def)
      from "2.IH"(2)[OF Some ObjCell _ s0 f0] "2.prems"
      have "grows n0 (h @ [ObjCell []]) (snd (reduceH depth (h @ [ObjCell []]) entries (VRef (length h))))
          \<and> (\<forall>v'. fst (reduceH depth (h @ [ObjCell []]) entries (VRef (length h))) = Inr v' \<longrightarrow> freshVal n0 v')"
        by simp
      with g0 Some ObjCell show ?thesis by (auto intro: grows_trans)
    qed
  qed
next
  case "3_1"
  then show ?case by (simp add: grows_refl freshVal_def)
next
  case "3_2"
  then show ?case by (simp add: grows_refl freshVal_def)
next
  case "3_3"
  then show ?case by (simp add: grows_refl freshVal_def)
next
  case "3_4"
  then show ?case by (simp add: grows_refl freshVal_def)
next
  case "3_5"
  then show ?case by (simp add: grows_refl freshVal_def)
next
  case (4 depth h)
  then show ?case by (simp add: grows_refl)
next
  case (5 depth h element rest)
  obtain r h' where t: "transpileRefH depth h element = (r, h')"
    by (cases "transpileRefH depth h element")
  from "5.IH"(1)[OF "5.prems"] t
  have g: "grows n0 h h'" and f: "\<forall>v'. r = Inr v' \<longrightarrow> freshVal n0 v'" by simp_all
  show ?case
  proof (cases r)
    case (Inl e)
    with t g show ?thesis by simp
  next
    case (Inr element')
    from g "5.prems" have len: "n0 \<le> length h'" "sepFrom n0 h'"
      using grows_length[OF g] by (auto simp: grows_def)
    obtain r2 h'' where m: "mapH depth h' rest = (r2, h'')" by (cases "mapH depth h' rest")
    from "5.IH"(2)[OF t[symmetric] Inr len] m
    have g2: "grows n0 h' h''" and f2: "\<forall>vs'. r2 = Inr vs' \<longrightarrow> list_all (freshVal n0) vs'"
      by simp_all
    from grows_trans[OF g g2] f f2 Inr t m show ?thesis
      by (cases r2) simp_all
  qed
next
  case (6 depth h obj)
  then show ?case by (simp add: grows_refl)
next
  case (7 depth h key "value" rest obj)
  obtain r h' where t: "transpileRefH depth h value = (r, h')"
    by (cases "transpileRefH depth h value")
  from "7.IH"(1)[OF "7.prems"(1,2)] t
  have g: "grows n0 h h'" and f: "\<forall>v'. r = Inr v' \<longrightarrow> freshVal n0 v'" by simp_all
  show ?case
  proof (cases r)
    case (Inl e)
    with t g show ?thesis by simp
  next
    case (Inr value')
    from g "7.prems" have len: "n0 \<le> length h'" "sepFrom n0 h'"
      using grows_length[OF g] by (auto simp: grows_def)
    from f Inr have fv: "freshVal n0 value'" by simp
    show ?thesis
    proof (cases "refExec key")
      case None
      let ?c = "ObjCell (AList.update key value' (ownEntriesH h' obj))"
      have fe: "freshEntries n0 (cellEntries ?c)"
        using freshEntries_ownEntriesH[OF len(2) "7.prems"(3)] fv
        by (simp add: freshEntries_update)
      have g1: "grows n0 h' (h' @ [?c])" by (rule grows_snoc[OF len fe])
      then have s1: "sepFrom n0 (h' @ [?c])" by (simp add: grows_def)
      have f1: "freshVal n0 (VRef (length h'))" using len(1) by (simp add: freshVal_def)
      from "7.IH"(2)[OF t[symmetric] Inr None _ s1 f1] len(1)
      have "grows n0 (h' @ [?c]) (snd (reduceH depth (h' @ [?c]) rest (VRef (length h'))))
          \<and> (\<forall>v'. fst (reduceH depth (h' @ [?c]) rest (VRef (length h'))) = Inr v' \<longrightarrow> freshVal n0 v')"
        by simp
      with grows_trans[OF g g1] t Inr None show ?thesis
        by (auto intro: grows_trans)
    next
      case (Some m)
      obtain match0 match2 where mm: "m = (match0, match2)" by (cases m)
      let ?argumentType = "trim (replaceFirst match0 key)"
      let ?argumentName = "(case match2 of
                              None \<Rightarrow> ?argumentType
                            | Some m \<Rightarrow> if trim m = [] then ?argumentType else trim m)"
      let ?h'' = "h' @ [ObjCell [(''nom'', VStr ?argumentName), (''valeur'', value')]]"
      let ?c = "ObjCell (AList.update ?argumentType (VRef (length h')) (ownEntriesH ?h'' obj))"
      have g1: "grows n0 h' ?h''"
        using fv by (intro grows_snoc[OF len]) (simp add: freshEntries_def freshVal_def)
      then have s1: "sepFrom n0 ?h''" and l1: "n0 \<le> length ?h''"
        using len(1) by (simp_all add: grows_def)
      have fe: "freshEntries n0 (cellEntries ?c)"
        using freshEntries_ownEntriesH[OF s1 "7.prems"(3)] len(1)
        by (simp add: freshEntries_update freshVal_def)
      have g2: "grows n0 ?h'' (?h'' @ [?c])" by (rule grows_snoc[OF l1 s1 fe])
      then have s2: "sepFrom n0 (?h'' @ [?c])" by (simp add: grows_def)
      have f2: "freshVal n0 (VRef (length ?h''))" using l1 by (simp add: freshVal_def)
      from "7.IH"(3)[OF t[symmetric] Inr Some[unfolded mm] refl refl refl refl _ s2 f2] l1
      have "grows n0 (?h'' @ [?c]) (snd (reduceH depth (?h'' @ [?c]) rest (VRef (length ?h''))))
          \<and> (\<forall>v'. fst (reduceH depth (?h'' @ [?c]) rest (VRef (length ?h''))) = Inr v' \<longrightarrow> freshVal n0 v')"
        by simp
      moreover have "grows n0 h (?h'' @ [?c])"
        by (rule grows_trans[OF grows_trans[OF g g1] g2])
      moreover have "reduceH depth h ((key, value) # rest) obj
                       = reduceH depth (?h'' @ [?c]) rest (VRef (length ?h''))"
        using t Inr Some mm by (simp add: Let_def)
      ultimately show ?thesis
        by (auto simp only: intro: grows_trans)
    qed
  qed
qed

lemma shorthandRuleH_grows:
  assumes "n0 \<le> length h" "sepFrom n0 h" "freshVal n0 rule"
  shows "grows n0 h (snd (shorthandRuleH C h rule)) \<and> freshVal n0 (fst (shorthandRuleH C h rule))"
  using assms
  by (cases rule) (auto simp: grows_refl freshVal_def freshEntries_def intro!: grows_snoc)

lemma take_grows: "n0 \<le> length h \<Longrightarrow> grows n0 h h' \<Longrightarrow> take n0 h' = take n0 h"
  by (auto simp: grows_def)

lemma parseEachH_frame:
  assumes "confined P"
  shows "n0 \<le> length h \<Longrightarrow> sepFrom n0 h \<Longrightarrow> freshEntries n0 entries \<Longrightarrow>
           take n0 (snd (parseEachH C P h entries ctx)) = take n0 h
           \<and> sepFrom n0 (snd (parseEachH C P h entries ctx))"
proof (induction entries arbitrary: h ctx)
  case Nil
  then show ?case by simp
next
  case (Cons entry entries)
  obtain ruleName rule where entry: "entry = (ruleName, rule)" by (cases entry)
  with Cons.prems(3) have fr: "freshVal n0 rule" and fe: "freshEntries n0 entries"
    by (simp_all add: freshEntries_def)
  obtain rule' h1 where sh: "shorthandRuleH C h rule = (rule', h1)"
    by (cases "shorthandRuleH C h rule")
  from shorthandRuleH_grows[OF Cons.prems(1,2) fr, of C] sh
  have g1: "grows n0 h h1" and f1: "freshVal n0 rule'" by simp_all
  then have s1: "sepFrom n0 h1" and l1: "n0 \<le> length h1" and t1: "take n0 h1 = take n0 h"
    using Cons.prems(1) grows_length[OF g1] take_grows[OF Cons.prems(1) g1]
    by (auto simp: grows_def)
  show ?case
  proof (cases "typeofObjectH rule'")
    case False
    with entry sh s1 t1 show ?thesis by simp
  next
    case True
    let ?c = "ObjCell (spreadH h1 [(''nom'', VStr ruleName)] rule')"
    let ?h2 = "h1 @ [?c]"
    have "freshEntries n0 [(''nom'', VStr ruleName)]"
      by (simp add: freshEntries_def freshVal_def)
    from freshEntries_foldl_update[OF this freshEntries_ownEntriesH[OF s1 f1]]
    have "freshEntries n0 (cellEntries ?c)" by (simp add: spreadH_def)
    from grows_snoc[OF l1 s1 this] have g2: "grows n0 h1 ?h2" .
    then have s2: "sepFrom n0 ?h2" and l2: "n0 \<le> length ?h2" and t2: "take n0 ?h2 = take n0 h1"
      using l1 by (simp_all add: grows_def)
    have f2: "freshVal n0 (VRef (length h1))" using l1 by (simp add: freshVal_def)
    obtain r h3 where p: "P ?h2 (VRef (length h1)) ctx = (r, h3)"
      by (cases "P ?h2 (VRef (length h1)) ctx")
    from assms l2 s2 f2 p have t3: "take n0 h3 = take n0 ?h2" and s3: "sepFrom n0 h3"
      unfolding confined_def by (metis snd_conv)+
    from t3 l2 have l3: "n0 \<le> length h3"
      by (metis length_take min.absorb2 min.cobounded1)
    show ?thesis
    proof (cases r)
      case (Inl e)
      with entry sh True p t3 t2 t1 s3 show ?thesis by simp
    next
      case (Inr ctx')
      from Cons.IH[OF l3 s3 fe, of ctx'] entry sh True p Inr t3 t2 t1 show ?thesis by simp
    qed
  qed
qed

lemma store_grows:
  "n0 \<le> length h \<Longrightarrow> sepFrom n0 h \<Longrightarrow>
     grows n0 h (snd (store h (t :: 'n rawNode))) \<and> freshVal n0 (fst (store h t))"
  "n0 \<le> length h \<Longrightarrow> sepFrom n0 h \<Longrightarrow>
     grows n0 h (snd (storeAll h (ts :: 'n rawNode list))) \<and> list_all (freshVal n0) (fst (storeAll h ts))"
  "n0 \<le> length h \<Longrightarrow> sepFrom n0 h \<Longrightarrow>
     grows n0 h (snd (storeEntries h (ms :: (string \<times> 'n rawNode) list)))
     \<and> freshEntries n0 (fst (storeEntries h ms))"
proof (induction h t and h ts and h ms rule: store_storeAll_storeEntries.induct)
  case (6 h trees)
  obtain elements h' where st: "storeAll h trees = (elements, h')" by (cases "storeAll h trees")
  from "6.IH"[OF "6.prems"] st have g: "grows n0 h h'" and f: "list_all (freshVal n0) elements"
    by simp_all
  then have len: "n0 \<le> length h'" "sepFrom n0 h'"
    using "6.prems"(1) grows_length[OF g] by (auto simp: grows_def)
  from f have "freshEntries n0 (cellEntries (ArrCell elements))" by (simp add: freshEntries_zip)
  from grows_trans[OF g grows_snoc[OF len this]] st len(1) show ?case
    by (simp add: freshVal_def)
next
  case (7 h members)
  obtain entries h' where st: "storeEntries h members = (entries, h')"
    by (cases "storeEntries h members")
  from "7.IH"[OF "7.prems"] st have g: "grows n0 h h'" and f: "freshEntries n0 entries"
    by simp_all
  then have len: "n0 \<le> length h'" "sepFrom n0 h'"
    using "7.prems"(1) grows_length[OF g] by (auto simp: grows_def)
  from f have "freshEntries n0 (cellEntries (ObjCell entries))" by simp
  from grows_trans[OF g grows_snoc[OF len this]] st len(1) show ?case
    by (simp add: freshVal_def)
next
  case (9 h tree trees)
  obtain element h' where s1: "store h tree = (element, h')" by (cases "store h tree")
  from "9.IH"(1)[OF "9.prems"] s1 have g: "grows n0 h h'" and f: "freshVal n0 element" by simp_all
  then have len: "n0 \<le> length h'" "sepFrom n0 h'"
    using "9.prems"(1) grows_length[OF g] by (auto simp: grows_def)
  obtain elements h'' where s2: "storeAll h' trees = (elements, h'')" by (cases "storeAll h' trees")
  from "9.IH"(2)[OF s1[symmetric] len] s2
  have "grows n0 h' h''" "list_all (freshVal n0) elements" by simp_all
  with g f s1 s2 show ?case by (auto intro: grows_trans)
next
  case (11 h key tree members)
  obtain v h' where s1: "store h tree = (v, h')" by (cases "store h tree")
  from "11.IH"(1)[OF "11.prems"] s1 have g: "grows n0 h h'" and f: "freshVal n0 v" by simp_all
  then have len: "n0 \<le> length h'" "sepFrom n0 h'"
    using "11.prems"(1) grows_length[OF g] by (auto simp: grows_def)
  obtain entries h'' where s2: "storeEntries h' members = (entries, h'')"
    by (cases "storeEntries h' members")
  from "11.IH"(2)[OF s1[symmetric] len] s2
  have "grows n0 h' h''" "freshEntries n0 entries" by simp_all
  with g f s1 s2 show ?case by (auto simp: freshEntries_def intro: grows_trans)
qed (simp_all add: grows_refl freshVal_def freshEntries_def)

lemma compile_frame:
  assumes "confined P" and "n0 \<le> length h0" and "sepFrom n0 h0"
  shows "take n0 (snd (case transpileRefH depth h0 decoded of
                         (Inl e, h1) \<Rightarrow> (Inl e, h1)
                       | (Inr rules, h1) \<Rightarrow>
                      (case objectEntriesH h1 rules of
                         Inl e \<Rightarrow> (Inl e, h1)
                       | Inr entries \<Rightarrow>
                      (case parseEachH C P h1 entries (makeContext partialContext) of
                         (Inl e, h2) \<Rightarrow> (Inl e, h2)
                       | (Inr context, h2) \<Rightarrow> (linkRules C context, h2))))) = take n0 h0"
proof -
  obtain r h1 where t: "transpileRefH depth h0 decoded = (r, h1)"
    by (cases "transpileRefH depth h0 decoded")
  from transpileRefH_grows(1)[OF assms(2,3), of depth decoded] t
  have g1: "grows n0 h0 h1" and f1: "\<forall>v'. r = Inr v' \<longrightarrow> freshVal n0 v'" by simp_all
  then have s1: "sepFrom n0 h1" and l1: "n0 \<le> length h1" and t1: "take n0 h1 = take n0 h0"
    using grows_length[OF g1] take_grows[OF assms(2) g1] assms(2) by (auto simp: grows_def)
  show ?thesis
  proof (cases r)
    case (Inl e)
    with t t1 show ?thesis by simp
  next
    case (Inr rules)
    show ?thesis
    proof (cases "objectEntriesH h1 rules")
      case (Inl e)
      with t Inr t1 show ?thesis by simp
    next
      case entries: (Inr entries)
      then have "entries = ownEntriesH h1 rules"
        by (auto simp: objectEntriesH_def split: val.splits)
      with freshEntries_ownEntriesH[OF s1] f1 Inr have "freshEntries n0 entries" by simp
      from parseEachH_frame[OF assms(1) l1 s1 this, of C "makeContext partialContext"] t1
      have "take n0 (snd (parseEachH C P h1 entries (makeContext partialContext))) = take n0 h0"
        by simp
      with t Inr entries show ?thesis
        by (cases "parseEachH C P h1 entries (makeContext partialContext)")
           (auto split: sum.splits)
    qed
  qed
qed

lemma confined_markingParse: "confined markingParse"
  unfolding confined_def
proof (intro allI impI)
  fix n0 and h :: "int heap" and v :: "int val" and ctx :: "int Context"
  assume l: "n0 \<le> length h" and s: "sepFrom n0 h" and f: "freshVal n0 v"
  show "take n0 (snd (markingParse h v ctx)) = take n0 h \<and> sepFrom n0 (snd (markingParse h v ctx))"
  proof (cases "\<exists>a entries ruleName. v = VRef a \<and> cellAt h a = Some (ObjCell entries)
                  \<and> map_of entries ''nom'' = Some (VStr ruleName)")
    case False
    then have "snd (markingParse h v ctx) = h"
      by (auto simp: markingParse_def split: val.splits option.splits cell.splits)
    with s show ?thesis by simp
  next
    case True
    then obtain a entries ruleName where v: "v = VRef a" and c: "cellAt h a = Some (ObjCell entries)"
      and n: "map_of entries ''nom'' = Some (VStr ruleName)" by blast
    from c have a: "a < length h" "h ! a = ObjCell entries"
      by (auto simp: cellAt_def split: if_splits)
    from f v have na: "n0 \<le> a" by (simp add: freshVal_def)
    let ?h' = "h[a := ObjCell (AList.update ''seen'' (VBool True) entries)]"
    have h': "snd (markingParse h v ctx) = ?h'"
      using v c n by (simp add: markingParse_def)
    have "freshEntries n0 entries" using s a na by (auto simp: sepFrom_nth)
    then have fe: "freshEntries n0 (AList.update ''seen'' (VBool True) entries)"
      by (rule freshEntries_update) (simp add: freshVal_def)
    have "sepFrom n0 ?h'"
      unfolding sepFrom_nth
    proof (intro allI impI)
      fix b assume b: "n0 \<le> b \<and> b < length ?h'"
      show "freshEntries n0 (cellEntries (?h' ! b))"
      proof (cases "b = a")
        case True
        with a fe show ?thesis by simp
      next
        case False
        with b s show ?thesis by (simp add: sepFrom_nth)
      qed
    qed
    moreover have "take n0 ?h' = take n0 h" using na by simp
    ultimately show ?thesis using h' by simp
  qed
qed

text \<open>
  C10. Whatever the input value, the depth bound, the collaborators and the outcome
  (a rule map or any error), the cells the caller's store held before the call are the
  same after it: \<open>parsePublicodes\<close> copies the top-level object, the desugarer builds new
  objects and sequences only, each rule is handed to \<open>parse\<close> as a new object whose
  parts are those new ones, and \<open>parse\<close> is confined to what it is given.
\<close>

theorem parsePublicodes_leaves_input_unchanged:
  assumes "confined P"
  shows "take (length h) (snd (parsePublicodesH depth C P h rawRules partialContext)) = h"
proof (cases "\<exists>source. rawRules = VStr source")
  case True
  then obtain source where src: "rawRules = VStr source" by blast
  show ?thesis
  proof (cases "yamlParse C (replaceTabs source)")
    case (Inl e)
    with src show ?thesis by (simp add: parsePublicodesH_def)
  next
    case (Inr decoded)
    obtain rules h0 where st: "store h decoded = (rules, h0)" by (cases "store h decoded")
    have "sepFrom (length h) h" by (simp add: sepFrom_def)
    from store_grows(1)[OF order_refl this, of decoded] st
    have g: "grows (length h) h h0" by simp
    then have l0: "length h \<le> length h0" and s0: "sepFrom (length h) h0"
      and t0: "take (length h) h0 = h"
      using grows_length[OF g] take_grows[OF order_refl g] by (auto simp: grows_def)
    from compile_frame[OF assms l0 s0, where depth=depth and C=C and partialContext=partialContext
                         and decoded=rules] t0
    show ?thesis using src Inr st by (simp add: parsePublicodesH_def)
  qed
next
  case False
  let ?h0 = "h @ [ObjCell (spreadH h [] rawRules)]"
  have l0: "Suc (length h) \<le> length ?h0" by simp
  have s0: "sepFrom (Suc (length h)) ?h0" by (simp add: sepFrom_def)
  have keep: "\<And>h'. take (Suc (length h)) h' = ?h0 \<Longrightarrow> take (length h) h' = h"
    by (metis append_eq_conv_conj take_take min.absorb1 le_SucI order_refl)
  from compile_frame[OF assms l0 s0, where depth=depth and C=C and partialContext=partialContext
                       and decoded="VRef (length h)"]
  have "take (length h) (snd (case transpileRefH depth ?h0 (VRef (length h)) of
                         (Inl e, h1) \<Rightarrow> (Inl e, h1)
                       | (Inr rules, h1) \<Rightarrow>
                      (case objectEntriesH h1 rules of
                         Inl e \<Rightarrow> (Inl e, h1)
                       | Inr entries \<Rightarrow>
                      (case parseEachH C P h1 entries (makeContext partialContext) of
                         (Inl e, h2) \<Rightarrow> (Inl e, h2)
                       | (Inr context, h2) \<Rightarrow> (linkRules C context, h2))))) = h"
    by (intro keep) simp
  with False show ?thesis by (cases rawRules) (simp_all add: parsePublicodesH_def)
qed

theorem parsePublicodes_leaves_input_unchanged_witness:
  "take 2 (snd (parsePublicodesH 10 stubCollaborators markingParse callerHeap (VRef 0) noPartialContext))
     = callerHeap
   \<and> snd (parsePublicodesH 10 stubCollaborators markingParse callerHeap (VRef 0) noPartialContext)
       ! 9 = ObjCell [(''nom'', VStr ''a''), (''formule'', VStr ''1''), (''seen'', VBool True)]"
proof -
  have "length callerHeap = 2" by (simp add: callerHeap_def)
  with parsePublicodes_leaves_input_unchanged[OF confined_markingParse,
         of callerHeap 10 stubCollaborators "VRef 0" noPartialContext]
  have "take 2 (snd (parsePublicodesH 10 stubCollaborators markingParse callerHeap (VRef 0)
                        noPartialContext)) = callerHeap" by simp
  moreover have "snd (parsePublicodesH 10 stubCollaborators markingParse callerHeap (VRef 0) noPartialContext)
       ! 9 = ObjCell [(''nom'', VStr ''a''), (''formule'', VStr ''1''), (''seen'', VBool True)]"
    by (simp add: parsePublicodesH_def callerHeap_def markingParse_def cellAt_def spreadH_def
          ownEntriesH_def objectEntriesH_def noPartialContext_def makeContext_def
          linkRules_def stubCollaborators_def inferRulesUnit_def topologicalSort_def
          sortStep_def nodeDependencies_def disambiguateReference_def string_eval
          eval_nat_numeral)
  ultimately show ?thesis by blast
qed

section \<open>Two calls on the same input\<close>

text \<open>
  \<open>represents h v t\<close>: in the store \<open>h\<close> the value \<open>v\<close> is the tree \<open>t\<close> (which makes
  it finite). \<open>depthOf\<close> is the nesting depth of a tree. \<open>functionalParse P parsePure\<close> is
  what is asked of \<open>parse\<close> here: its result is a function (\<open>parsePure\<close>) of the tree it
  is given and of the context, and it creates objects without writing to existing ones.
\<close>

inductive represents :: "'n heap \<Rightarrow> 'n val \<Rightarrow> 'n rawNode \<Rightarrow> bool" for h :: "'n heap" where
  repUndefined: "represents h VUndefined Undefined"
| repNull: "represents h VNull Null"
| repBool: "represents h (VBool b) (Bool b)"
| repNum: "represents h (VNum n) (Num n)"
| repStr: "represents h (VStr s) (Str s)"
| repArr: "cellAt h a = Some (ArrCell elements) \<Longrightarrow> list_all2 (represents h) elements trees
            \<Longrightarrow> represents h (VRef a) (Arr trees)"
| repObj: "cellAt h a = Some (ObjCell entries)
            \<Longrightarrow> list_all2 (\<lambda>entry member. fst entry = fst member \<and> represents h (snd entry) (snd member))
                  entries members
            \<Longrightarrow> represents h (VRef a) (Obj members)"

abbreviation entryRep :: "'n heap \<Rightarrow> string \<times> 'n val \<Rightarrow> string \<times> 'n rawNode \<Rightarrow> bool" where
  "entryRep h \<equiv> (\<lambda>entry member. fst entry = fst member \<and> represents h (snd entry) (snd member))"

fun depthOf :: "'n rawNode \<Rightarrow> nat" where
  "depthOf (Arr trees) = Suc (foldr max (map depthOf trees) 0)"
| "depthOf (Obj members) = Suc (foldr max (map (\<lambda>(key, tree). depthOf tree) members) 0)"
| "depthOf v = 0"

definition functionalParse ::
  "('n, 'v) parseH \<Rightarrow> ('n rawNode \<Rightarrow> 'v Context \<Rightarrow> error + 'v Context) \<Rightarrow> bool" where
  "functionalParse P parsePure \<longleftrightarrow>
     (\<forall>h v t context. represents h v t \<longrightarrow> (\<exists>ext. P h v context = (parsePure t context, h @ ext)))"

text \<open>A stand-in for \<open>parse\<close> that reads the name of the rule from the store.\<close>

definition readingParse :: "(int, int) parseH" where
  "readingParse h v context =
     (case v of
        VRef a \<Rightarrow>
          (case cellAt h a of
             Some (ObjCell entries) \<Rightarrow>
               (case map_of entries ''nom'' of
                  Some (VStr ruleName) \<Rightarrow>
                    (Inr (context\<lparr>ctxParsedRules :=
                            AList.update ruleName (Rule ruleName None None (Constant None))
                              (ctxParsedRules context)\<rparr>), h)
                | _ \<Rightarrow> (Inl (CollaboratorError ''no name''), h))
           | _ \<Rightarrow> (Inl (CollaboratorError ''no rule''), h))
      | _ \<Rightarrow> (Inl (CollaboratorError ''no rule''), h))"

lemma cellAt_append: "cellAt h a = Some c \<Longrightarrow> cellAt (h @ ext) a = Some c"
  by (auto simp: cellAt_def nth_append split: if_splits)

lemma represents_append: "represents h v t \<Longrightarrow> represents (h @ ext) v t"
proof (induction rule: represents.induct)
  case (repArr a elements trees)
  from repArr(2) have "list_all2 (represents (h @ ext)) elements trees"
    by (rule list_all2_mono) simp
  with cellAt_append[OF repArr(1)] show ?case by (rule represents.repArr)
next
  case (repObj a entries members)
  from repObj(2) have "list_all2 (entryRep (h @ ext)) entries members"
    by (rule list_all2_mono) auto
  with cellAt_append[OF repObj(1)] show ?case by (rule represents.repObj)
qed (auto intro: represents.intros)

lemma entryRep_append:
  "list_all2 (entryRep h) entries members \<Longrightarrow> list_all2 (entryRep (h @ ext)) entries members"
  by (erule list_all2_mono) (auto intro: represents_append)

lemma list_all2_represents_append:
  "list_all2 (represents h) vs ts \<Longrightarrow> list_all2 (represents (h @ ext)) vs ts"
  by (erule list_all2_mono) (auto intro: represents_append)

lemma entryRep_update:
  "list_all2 (entryRep h) entries members \<Longrightarrow> represents h v t \<Longrightarrow>
     list_all2 (entryRep h) (AList.update k v entries) (AList.update k t members)"
  by (induction entries members rule: list_all2_induct) auto

lemma entryRep_foldl_update:
  "list_all2 (entryRep h) acc accT \<Longrightarrow> list_all2 (entryRep h) xs ys \<Longrightarrow>
     list_all2 (entryRep h)
       (foldl (\<lambda>acc (key, value). AList.update key value acc) acc xs)
       (foldl (\<lambda>acc (key, value). AList.update key value acc) accT ys)"
proof (induction xs arbitrary: ys acc accT)
  case Nil
  then show ?case by simp
next
  case (Cons x xs)
  from Cons.prems(2) obtain y ys' where ys: "ys = y # ys'" and xy: "entryRep h x y"
    and rest: "list_all2 (entryRep h) xs ys'"
    by (auto simp: list_all2_Cons1)
  obtain k v where x: "x = (k, v)" by (cases x)
  obtain k' t where y: "y = (k', t)" by (cases y)
  from xy x y have kk: "k' = k" and r: "represents h v t" by simp_all
  from Cons.IH[OF entryRep_update[OF Cons.prems(1) r, of k] rest] ys x y kk
  show ?case by simp
qed

lemma entryRep_zip:
  "list_all2 (represents h) vs ts \<Longrightarrow> list_all2 (entryRep h) (zip ks vs) (zip ks ts)"
proof (induction vs ts arbitrary: ks rule: list_all2_induct)
  case Nil
  then show ?case by simp
next
  case (Cons v vs t ts)
  then show ?case by (cases ks) auto
qed

lemma ownEntries_represents:
  assumes "represents h v t"
  shows "list_all2 (entryRep h) (ownEntriesH h v) (ownEntries t)"
  using assms
proof (cases rule: represents.cases)
  case (repArr a elements trees)
  then have "length elements = length trees" by (auto dest: list_all2_lengthD)
  with repArr entryRep_zip[OF repArr(4), of "map natToString [0..<length trees]"]
  show ?thesis by (simp add: ownEntriesH_def)
next
  case (repObj a entries members)
  then show ?thesis by (simp add: ownEntriesH_def)
next
  case (repStr s)
  have "list_all2 (represents h) (map (\<lambda>c. VStr [c]) s) (map (\<lambda>c. Str [c]) s)"
    by (induction s) (auto intro: represents.intros)
  from entryRep_zip[OF this] repStr show ?thesis by (simp add: ownEntriesH_def)
qed (simp_all add: ownEntriesH_def)

lemma spread_represents:
  "list_all2 (entryRep h) acc accT \<Longrightarrow> represents h v t \<Longrightarrow>
     list_all2 (entryRep h) (spreadH h acc v) (spread accT t)"
  unfolding spreadH_def spread_def
  by (rule entryRep_foldl_update) (auto intro: ownEntries_represents)

lemma depthOf_member: "t \<in> set ts \<Longrightarrow> depthOf t \<le> foldr max (map depthOf ts) 0"
  by (induction ts) auto

lemma depthOf_entry:
  "m \<in> set members \<Longrightarrow> depthOf (snd m) \<le> foldr max (map (\<lambda>(key, tree). depthOf tree) members) 0"
  by (induction members) (auto split: prod.splits)

lemma represents_new_object:
  assumes "list_all2 (entryRep h) entries members"
  shows "represents (h @ [ObjCell entries]) (VRef (length h)) (Obj members)"
proof (rule represents.repObj)
  show "cellAt (h @ [ObjCell entries]) (length h) = Some (ObjCell entries)"
    by (simp add: cellAt_def)
  show "list_all2 (entryRep (h @ [ObjCell entries])) entries members"
    using assms by (rule entryRep_append)
qed

lemma represents_new_array:
  assumes "list_all2 (represents h) elements trees"
  shows "represents (h @ [ArrCell elements]) (VRef (length h)) (Arr trees)"
proof (rule represents.repArr)
  show "cellAt (h @ [ArrCell elements]) (length h) = Some (ArrCell elements)"
    by (simp add: cellAt_def)
  show "list_all2 (represents (h @ [ArrCell elements])) elements trees"
    using assms by (rule list_all2_represents_append)
qed

lemma transpileRefH_refines:
  "represents h v (t :: 'n rawNode) \<Longrightarrow> depthOf t < depth \<Longrightarrow>
     \<exists>v' ext. transpileRefH depth h v = (Inr v', h @ ext) \<and> represents (h @ ext) v' (transpileRef t)"
  "list_all2 (represents h) vs (ts :: 'n rawNode list) \<Longrightarrow> (\<forall>t \<in> set ts. depthOf t < depth) \<Longrightarrow>
     \<exists>vs' ext. mapH depth h vs = (Inr vs', h @ ext)
        \<and> list_all2 (represents (h @ ext)) vs' (map transpileRef ts)"
  "list_all2 (entryRep h) entries (members :: (string \<times> 'n rawNode) list) \<Longrightarrow>
     (\<forall>m \<in> set members. depthOf (snd m) < depth) \<Longrightarrow> represents h obj (Obj acc) \<Longrightarrow>
     \<exists>v' ext. reduceH depth h entries obj = (Inr v', h @ ext)
        \<and> represents (h @ ext) v' (Obj (foldl transpileEntry acc members))"
proof (induction depth h v and depth h vs and depth h entries obj
       arbitrary: t and ts and members acc
       rule: transpileRefH_mapH_reduceH.induct)
  case (1 h object)
  then show ?case by simp
next
  case (2 depth h a)
  from "2.prems"(1) show ?case
  proof (cases rule: represents.cases)
    case (repArr elements trees)
    from "2.prems"(2) repArr(1) have "\<forall>t \<in> set trees. depthOf t < depth"
      using depthOf_member[of _ trees] by fastforce
    from "2.IH"(1)[OF repArr(2) refl repArr(3) this]
    obtain vs' ext where m: "mapH depth h elements = (Inr vs', h @ ext)"
      and r: "list_all2 (represents (h @ ext)) vs' (map transpileRef trees)" by blast
    from represents_new_array[OF r]
    have "represents (h @ (ext @ [ArrCell vs'])) (VRef (length (h @ ext))) (transpileRef t)"
      using repArr(1) by simp
    moreover have "transpileRefH (Suc depth) h (VRef a)
                     = (Inr (VRef (length (h @ ext))), h @ (ext @ [ArrCell vs']))"
      using repArr(2) m by simp
    ultimately show ?thesis by blast
  next
    case (repObj entries members)
    from "2.prems"(2) repObj(1) have d: "\<forall>m \<in> set members. depthOf (snd m) < depth"
      using depthOf_entry[of _ members] by fastforce
    have e: "list_all2 (entryRep (h @ [ObjCell []])) entries members"
      using repObj(3) by (rule entryRep_append)
    have o: "represents (h @ [ObjCell []]) (VRef (length h)) (Obj [])"
      by (rule represents_new_object) simp
    from "2.IH"(2)[OF repObj(2) refl e d o]
    obtain v' ext where rd: "reduceH depth (h @ [ObjCell []]) entries (VRef (length h))
                               = (Inr v', (h @ [ObjCell []]) @ ext)"
      and r: "represents ((h @ [ObjCell []]) @ ext) v' (Obj (foldl transpileEntry [] members))"
      by blast
    have "transpileRefH (Suc depth) h (VRef a) = (Inr v', h @ (ObjCell [] # ext))"
      using repObj(2) rd by simp
    moreover have "represents (h @ (ObjCell [] # ext)) v' (transpileRef t)"
      using r repObj(1) by (simp add: transpileRef_Obj del: transpileRef.simps)
    ultimately show ?thesis by blast
  qed
next
  case "3_1"
  from "3_1.prems"(1) show ?case
    by (cases rule: represents.cases) (auto intro: represents.intros)
next
  case "3_2"
  from "3_2.prems"(1) show ?case
    by (cases rule: represents.cases) (auto intro: represents.intros)
next
  case "3_3"
  from "3_3.prems"(1) show ?case
    by (cases rule: represents.cases) (auto intro: represents.intros)
next
  case "3_4"
  from "3_4.prems"(1) show ?case
    by (cases rule: represents.cases) (auto intro: represents.intros)
next
  case "3_5"
  from "3_5.prems"(1) show ?case
    by (cases rule: represents.cases) (auto intro: represents.intros)
next
  case (4 depth h)
  then show ?case by simp
next
  case (5 depth h element rest)
  from "5.prems"(1) obtain t ts' where ts: "ts = t # ts'" and rt: "represents h element t"
    and rr: "list_all2 (represents h) rest ts'"
    by (auto simp: list_all2_Cons1)
  from "5.prems"(2) ts have dt: "depthOf t < depth" and dr: "\<forall>t \<in> set ts'. depthOf t < depth"
    by simp_all
  from "5.IH"(1)[OF rt dt]
  obtain v' ext where tr: "transpileRefH depth h element = (Inr v', h @ ext)"
    and rv: "represents (h @ ext) v' (transpileRef t)" by blast
  from "5.IH"(2)[OF tr[symmetric] refl list_all2_represents_append[OF rr] dr]
  obtain vs' ext2 where m: "mapH depth (h @ ext) rest = (Inr vs', (h @ ext) @ ext2)"
    and rvs: "list_all2 (represents ((h @ ext) @ ext2)) vs' (map transpileRef ts')" by blast
  have "mapH depth h (element # rest) = (Inr (v' # vs'), h @ (ext @ ext2))"
    using tr m by simp
  moreover have "list_all2 (represents (h @ (ext @ ext2))) (v' # vs') (map transpileRef ts)"
    using rvs represents_append[OF rv, of ext2] ts by simp
  ultimately show ?case by blast
next
  case (6 depth h obj)
  then have "reduceH depth h [] obj = (Inr obj, h @ [])"
    and "represents (h @ []) obj (Obj (foldl transpileEntry acc members))" by simp_all
  then show ?case by blast
next
  case (7 depth h key "value" rest obj)
  from "7.prems"(1) obtain t ms where ms: "members = (key, t) # ms" and rt: "represents h value t"
    and rr: "list_all2 (entryRep h) rest ms"
    by (auto simp: list_all2_Cons1)
  from "7.prems"(2) ms have dt: "depthOf t < depth" and dr: "\<forall>m \<in> set ms. depthOf (snd m) < depth"
    by simp_all
  from "7.IH"(1)[OF rt dt]
  obtain value' ext where tr: "transpileRefH depth h value = (Inr value', h @ ext)"
    and rv: "represents (h @ ext) value' (transpileRef t)" by blast
  let ?h' = "h @ ext"
  have ro: "represents ?h' obj (Obj acc)" using "7.prems"(3) by (rule represents_append)
  show ?case
  proof (cases "refExec key")
    case None
    let ?c = "ObjCell (AList.update key value' (ownEntriesH ?h' obj))"
    have "list_all2 (entryRep ?h') (AList.update key value' (ownEntriesH ?h' obj))
            (AList.update key (transpileRef t) acc)"
      using ownEntries_represents[OF ro] rv by (simp add: entryRep_update)
    from represents_new_object[OF this]
    have o': "represents (?h' @ [?c]) (VRef (length ?h')) (Obj (transpileEntry acc (key, t)))"
      using None by (simp add: transpileEntry_def)
    have r': "list_all2 (entryRep (?h' @ [?c])) rest ms"
      using entryRep_append[OF rr, of "ext @ [?c]"] by simp
    from "7.IH"(2)[OF tr[symmetric] refl None r' dr o']
    obtain v' ext2 where rd: "reduceH depth (?h' @ [?c]) rest (VRef (length ?h')) = (Inr v', (?h' @ [?c]) @ ext2)"
      and rf: "represents ((?h' @ [?c]) @ ext2) v' (Obj (foldl transpileEntry (transpileEntry acc (key, t)) ms))"
      by blast
    have "reduceH depth h ((key, value) # rest) obj = (Inr v', h @ (ext @ ?c # ext2))"
      using tr None rd by simp
    moreover have "represents (h @ (ext @ ?c # ext2)) v' (Obj (foldl transpileEntry acc members))"
      using rf ms by simp
    ultimately show ?thesis by blast
  next
    case (Some m)
    obtain match0 match2 where mm: "m = (match0, match2)" by (cases m)
    let ?argumentType = "trim (replaceFirst match0 key)"
    let ?argumentName = "(case match2 of
                            None \<Rightarrow> ?argumentType
                          | Some m \<Rightarrow> if trim m = [] then ?argumentType else trim m)"
    let ?n = "ObjCell [(''nom'', VStr ?argumentName), (''valeur'', value')]"
    let ?h'' = "?h' @ [?n]"
    let ?c = "ObjCell (AList.update ?argumentType (VRef (length ?h')) (ownEntriesH ?h'' obj))"
    have "list_all2 (entryRep ?h') [(''nom'', VStr ?argumentName), (''valeur'', value')]
            [(''nom'', Str ?argumentName), (''valeur'', transpileRef t)]"
      using rv by (simp add: represents.repStr)
    from represents_new_object[OF this]
    have rn: "represents ?h'' (VRef (length ?h'))
                (Obj [(''nom'', Str ?argumentName), (''valeur'', transpileRef t)])" .
    have ro': "represents ?h'' obj (Obj acc)" using ro by (rule represents_append)
    have "list_all2 (entryRep ?h'') (AList.update ?argumentType (VRef (length ?h')) (ownEntriesH ?h'' obj))
            (AList.update ?argumentType (Obj [(''nom'', Str ?argumentName), (''valeur'', transpileRef t)]) acc)"
      using ownEntries_represents[OF ro'] rn by (simp add: entryRep_update)
    from represents_new_object[OF this]
    have o': "represents (?h'' @ [?c]) (VRef (length ?h'')) (Obj (transpileEntry acc (key, t)))"
      using Some mm by (simp add: transpileEntry_def Let_def)
    have r': "list_all2 (entryRep (?h'' @ [?c])) rest ms"
      using entryRep_append[OF rr, of "ext @ [?n, ?c]"] by simp
    from "7.IH"(3)[OF tr[symmetric] refl Some[unfolded mm] refl refl refl refl r' dr o']
    obtain v' ext2 where rd: "reduceH depth (?h'' @ [?c]) rest (VRef (length ?h'')) = (Inr v', (?h'' @ [?c]) @ ext2)"
      and rf: "represents ((?h'' @ [?c]) @ ext2) v' (Obj (foldl transpileEntry (transpileEntry acc (key, t)) ms))"
      by blast
    have "reduceH depth h ((key, value) # rest) obj = (Inr v', h @ (ext @ ?n # ?c # ext2))"
      using tr Some mm rd by (simp add: Let_def)
    moreover have "represents (h @ (ext @ ?n # ?c # ext2)) v' (Obj (foldl transpileEntry acc members))"
      using rf ms by simp
    ultimately show ?thesis by blast
  qed
qed

lemma shorthandRuleH_refines:
  assumes "represents h rule t"
  shows "\<exists>rule' ext. shorthandRuleH C h rule = (rule', h @ ext)
           \<and> represents (h @ ext) rule' (shorthandRule C t)
           \<and> typeofObjectH rule' = typeofObject (shorthandRule C t)"
  using assms
proof (cases rule: represents.cases)
  case (repStr s)
  have "represents (h @ [ObjCell [(''formule'', VStr s)]]) (VRef (length h)) (Obj [(''formule'', Str s)])"
    by (rule represents_new_object) (simp add: represents.repStr)
  with repStr show ?thesis by auto
next
  case (repNum n)
  have "represents (h @ [ObjCell [(''formule'', VStr (numberToString C n))]]) (VRef (length h))
          (Obj [(''formule'', Str (numberToString C n))])"
    by (rule represents_new_object) (simp add: represents.repStr)
  with repNum show ?thesis by auto
next
  case (repArr a elements trees)
  with assms have "shorthandRuleH C h rule = (rule, h @ [])" "represents (h @ []) rule (shorthandRule C t)"
    "typeofObjectH rule = typeofObject (shorthandRule C t)" by simp_all
  then show ?thesis by blast
next
  case (repObj a entries members)
  with assms have "shorthandRuleH C h rule = (rule, h @ [])" "represents (h @ []) rule (shorthandRule C t)"
    "typeofObjectH rule = typeofObject (shorthandRule C t)" by simp_all
  then show ?thesis by blast
next
  case repUndefined
  with assms have "shorthandRuleH C h rule = (rule, h @ [])" "represents (h @ []) rule (shorthandRule C t)"
    "typeofObjectH rule = typeofObject (shorthandRule C t)" by simp_all
  then show ?thesis by blast
next
  case repNull
  with assms have "shorthandRuleH C h rule = (rule, h @ [])" "represents (h @ []) rule (shorthandRule C t)"
    "typeofObjectH rule = typeofObject (shorthandRule C t)" by simp_all
  then show ?thesis by blast
next
  case (repBool b)
  with assms have "shorthandRuleH C h rule = (rule, h @ [])" "represents (h @ []) rule (shorthandRule C t)"
    "typeofObjectH rule = typeofObject (shorthandRule C t)" by simp_all
  then show ?thesis by blast
qed

lemma parseEachH_refines:
  assumes "functionalParse P parsePure"
  shows "list_all2 (entryRep h) entries members \<Longrightarrow>
           \<exists>ext. parseEachH C P h entries ctx
                    = (parseEach (C\<lparr>parse := parsePure\<rparr>) members ctx, h @ ext)"
proof (induction entries arbitrary: members h ctx)
  case Nil
  then have "parseEachH C P h [] ctx = (parseEach (C\<lparr>parse := parsePure\<rparr>) members ctx, h @ [])"
    by simp
  then show ?case by blast
next
  case (Cons entry entries)
  from Cons.prems obtain member members' where ms: "members = member # members'"
    and em: "entryRep h entry member" and rest: "list_all2 (entryRep h) entries members'"
    by (auto simp: list_all2_Cons1)
  obtain ruleName rule where entry: "entry = (ruleName, rule)" by (cases entry)
  obtain ruleName' t where member: "member = (ruleName', t)" by (cases member)
  from em entry member have nn: "ruleName' = ruleName" and rt: "represents h rule t" by simp_all
  let ?C = "C\<lparr>parse := parsePure\<rparr>"
  from shorthandRuleH_refines[OF rt, of C]
  obtain rule' ext1 where sh: "shorthandRuleH C h rule = (rule', h @ ext1)"
    and r1: "represents (h @ ext1) rule' (shorthandRule C t)"
    and ty: "typeofObjectH rule' = typeofObject (shorthandRule C t)" by blast
  have sc: "shorthandRule ?C t = shorthandRule C t" by (cases t) simp_all
  show ?case
  proof (cases "typeofObject (shorthandRule C t)")
    case False
    with sh ty sc entry member nn ms
    have "parseEachH C P h (entry # entries) ctx = (parseEach ?C members ctx, h @ ext1)" by simp
    then show ?thesis by blast
  next
    case True
    let ?h1 = "h @ ext1"
    let ?c = "ObjCell (spreadH ?h1 [(''nom'', VStr ruleName)] rule')"
    let ?tree = "Obj (spread [(''nom'', Str ruleName)] (shorthandRule C t))"
    have "list_all2 (entryRep ?h1) [(''nom'', VStr ruleName)] [(''nom'', Str ruleName)]"
      by (simp add: represents.repStr)
    from represents_new_object[OF spread_represents[OF this r1]]
    have "represents (?h1 @ [?c]) (VRef (length ?h1)) ?tree" .
    with assms obtain ext2 where p: "P (?h1 @ [?c]) (VRef (length ?h1)) ctx
                                       = (parsePure ?tree ctx, (?h1 @ [?c]) @ ext2)"
      unfolding functionalParse_def by blast
    show ?thesis
    proof (cases "parsePure ?tree ctx")
      case (Inl e)
      with sh ty sc True entry member nn ms p
      have "parseEachH C P h (entry # entries) ctx = (parseEach ?C members ctx, h @ (ext1 @ ?c # ext2))"
        by simp
      then show ?thesis by blast
    next
      case (Inr ctx')
      from entryRep_append[OF rest, of "ext1 @ ?c # ext2"]
      have "list_all2 (entryRep ((?h1 @ [?c]) @ ext2)) entries members'" by simp
      from Cons.IH[OF this, of ctx']
      obtain ext3 where "parseEachH C P ((?h1 @ [?c]) @ ext2) entries ctx'
                           = (parseEach ?C members' ctx', ((?h1 @ [?c]) @ ext2) @ ext3)" by blast
      with sh ty sc True entry member nn ms p Inr
      have "parseEachH C P h (entry # entries) ctx
              = (parseEach ?C members ctx, h @ (ext1 @ ?c # ext2 @ ext3))"
        by simp
      then show ?thesis by blast
    qed
  qed
qed

lemma foldl_update_members:
  "set (foldl (\<lambda>acc (key, value). AList.update key value acc) acc xs) \<subseteq> set acc \<union> set xs"
proof (induction xs arbitrary: acc)
  case Nil
  then show ?case by simp
next
  case (Cons x xs)
  obtain k v where x: "x = (k, v)" by (cases x)
  have "set (AList.update k v acc) \<subseteq> insert (k, v) (set acc)"
    by (induction acc) auto
  with Cons.IH[of "AList.update k v acc"] x show ?case by auto
qed

lemma depthOf_Obj_less:
  "depthOf (Obj members) < depth \<longleftrightarrow> 1 < depth \<and> (\<forall>m \<in> set members. depthOf (snd m) < depth - 1)"
  by (induction members) (auto split: prod.splits)

lemma depthOf_shallow_copy:
  "depthOf (Obj entries) < depth \<Longrightarrow> depthOf (Obj (spread [] (Obj entries))) < depth"
  using foldl_update_members[of "[]" entries]
  unfolding depthOf_Obj_less spread_def ownEntries.simps by auto

lemma parsePublicodesH_refines:
  assumes "represents h rawRules (Obj entries)"
    and "depthOf (Obj entries) < depth"
    and "functionalParse P parsePure"
  shows "\<exists>ext. parsePublicodesH depth C P h rawRules partialContext
           = (parsePublicodes (C\<lparr>parse := parsePure\<rparr>) (Mapping entries) partialContext, h @ ext)"
proof -
  let ?C = "C\<lparr>parse := parsePure\<rparr>"
  let ?copy = "ObjCell (spreadH h [] rawRules)"
  let ?decoded = "Obj (spread [] (Obj entries))"
  have "list_all2 (entryRep h) [] []" by simp
  from represents_new_object[OF spread_represents[OF this assms(1)]]
  have rc: "represents (h @ [?copy]) (VRef (length h)) ?decoded" .
  from transpileRefH_refines(1)[OF rc depthOf_shallow_copy[OF assms(2)]]
  obtain rules ext1 where t: "transpileRefH depth (h @ [?copy]) (VRef (length h)) = (Inr rules, (h @ [?copy]) @ ext1)"
    and rr: "represents ((h @ [?copy]) @ ext1) rules (transpileRef ?decoded)" by blast
  let ?h1 = "(h @ [?copy]) @ ext1"
  obtain members where tm: "transpileRef ?decoded = Obj members"
    by (simp add: transpileRef_Obj del: transpileRef.simps)
  from rr tm have oe: "objectEntriesH ?h1 rules = Inr (ownEntriesH ?h1 rules)"
    by (cases rule: represents.cases) (simp_all add: objectEntriesH_def)
  from ownEntries_represents[OF rr] tm
  have er: "list_all2 (entryRep ?h1) (ownEntriesH ?h1 rules) members" by simp
  from parseEachH_refines[OF assms(3) er, of C "makeContext partialContext"]
  obtain ext2 where pe: "parseEachH C P ?h1 (ownEntriesH ?h1 rules) (makeContext partialContext)
                           = (parseEach ?C members (makeContext partialContext), ?h1 @ ext2)" by blast
  have lr: "\<And>context. linkRules ?C context = linkRules C context"
    by (simp add: linkRules_def Let_def split: sum.splits prod.splits)
  from assms(1) obtain a where ref: "rawRules = VRef a"
    by (cases rule: represents.cases) simp
  have "parsePublicodesH depth C P h rawRules partialContext
          = (parsePublicodes ?C (Mapping entries) partialContext, h @ (?copy # ext1 @ ext2))"
    using t oe pe tm lr ref
    by (auto simp: parsePublicodesH_def parsePublicodes_def objectEntries_def split: sum.splits)
  then show ?thesis by blast
qed

lemma map_of_represents:
  "list_all2 (entryRep h) entries members \<Longrightarrow>
     rel_option (represents h) (map_of entries k) (map_of members k)"
  by (induction entries members rule: list_all2_induct) auto

lemma functionalParse_readingParse: "functionalParse readingParse stubParse"
  unfolding functionalParse_def
proof (intro allI impI)
  fix h :: "int heap" and v :: "int val" and t :: "int rawNode" and ctx :: "int Context"
  assume r: "represents h v t"
  have "readingParse h v ctx = (stubParse t ctx, h @ [])"
    using r
  proof (cases rule: represents.cases)
    case (repObj a entries members)
    from map_of_represents[OF repObj(4), of "''nom''"]
    show ?thesis
    proof (cases rule: option.rel_cases)
      case None
      with repObj show ?thesis by (simp add: readingParse_def stubParse_def)
    next
      case (Some x y)
      from Some(3) Some(1,2) repObj show ?thesis
        by (cases rule: represents.cases) (simp_all add: readingParse_def stubParse_def)
    qed
  qed (simp_all add: readingParse_def stubParse_def)
  then show "\<exists>ext. readingParse h v ctx = (stubParse t ctx, h @ ext)" by blast
qed

lemma represents_callerHeap:
  "represents callerHeap (VRef 0) (Obj [(''a'', Obj [(''formule'', Str ''1'')]), (''b [ref]'', Num 5)])"
proof -
  have inner: "represents callerHeap (VRef 1) (Obj [(''formule'', Str ''1'')])"
    by (rule represents.repObj[where entries="[(''formule'', VStr ''1'')]"])
       (simp_all add: callerHeap_def cellAt_def represents.repStr)
  show ?thesis
    by (rule represents.repObj[where entries="[(''a'', VRef 1), (''b [ref]'', VNum 5)]"])
       (use inner in \<open>simp_all add: callerHeap_def cellAt_def represents.repNum\<close>)
qed

text \<open>
  C8. Two calls of \<open>parsePublicodes\<close> on the same pre-decoded input object, each with the
  default context, the second one running on the store the first one left behind, return
  the same result (the same rule map, or the same error). The input is a finite tree
  within the depth bound of the call stack, and \<open>parse\<close> is a function of the structure
  of its argument and of the context.
\<close>

theorem parsePublicodes_deterministic:
  assumes "represents h rawRules (Obj entries)"
    and "depthOf (Obj entries) < depth"
    and "functionalParse P parsePure"
  shows "fst (parsePublicodesH depth C P
                (snd (parsePublicodesH depth C P h rawRules noPartialContext))
                rawRules noPartialContext)
           = fst (parsePublicodesH depth C P h rawRules noPartialContext)"
proof -
  from parsePublicodesH_refines[OF assms, of C noPartialContext]
  obtain ext where first: "parsePublicodesH depth C P h rawRules noPartialContext
      = (parsePublicodes (C\<lparr>parse := parsePure\<rparr>) (Mapping entries) noPartialContext, h @ ext)"
    by blast
  from parsePublicodesH_refines[OF represents_append[OF assms(1), of ext] assms(2,3), of C noPartialContext]
  obtain ext' where "parsePublicodesH depth C P (h @ ext) rawRules noPartialContext
      = (parsePublicodes (C\<lparr>parse := parsePure\<rparr>) (Mapping entries) noPartialContext, (h @ ext) @ ext')"
    by blast
  with first show ?thesis by simp
qed

theorem parsePublicodes_deterministic_witness:
  "fst (parsePublicodesH 10 stubCollaborators readingParse
          (snd (parsePublicodesH 10 stubCollaborators readingParse callerHeap (VRef 0) noPartialContext))
          (VRef 0) noPartialContext)
     = fst (parsePublicodesH 10 stubCollaborators readingParse callerHeap (VRef 0) noPartialContext)
   \<and> fst (parsePublicodesH 10 stubCollaborators readingParse callerHeap (VRef 0) noPartialContext)
     = Inr [(''a'', Rule ''a'' None None (Constant None)), (''b'', Rule ''b'' None None (Constant None))]"
proof -
  have d: "depthOf (Obj [(''a'', Obj [(''formule'', Str ''1'')]), (''b [ref]'', Num (5::int))]) < 10"
    by simp
  have "fst (parsePublicodesH 10 stubCollaborators readingParse callerHeap (VRef 0) noPartialContext)
     = Inr [(''a'', Rule ''a'' None None (Constant None)), (''b'', Rule ''b'' None None (Constant None))]"
    by (simp add: parsePublicodesH_def callerHeap_def readingParse_def cellAt_def spreadH_def
          ownEntriesH_def objectEntriesH_def noPartialContext_def makeContext_def
          linkRules_def stubCollaborators_def inferRulesUnit_def topologicalSort_def
          sortStep_def nodeDependencies_def disambiguateReference_def string_eval
          eval_nat_numeral)
  with parsePublicodes_deterministic[OF represents_callerHeap d functionalParse_readingParse,
         of stubCollaborators]
  show ?thesis by blast
qed

end
